theory Spec2Isabelle
  imports Main
begin

section \<open>Errors, effects and the hosting-platform interface\<close>

text \<open>
  A JavaScript exception is a value: \<open>Error\<close> is a plain error with its message,
  \<open>RequestError\<close> is the error the hosting-platform client rejects with (HTTP status and
  message). The program only ever reads \<open>message\<close>.
\<close>

datatype error = Error (message: string) | RequestError (status: nat) (message: string)

text \<open>
  Parameter objects of the hosting-platform calls. The spread \<open>{...refInfo, ref: r, force: true}\<close>
  of the source is record extension.
\<close>

record repo_info =
  owner :: string
  repo :: string

record ref_params = repo_info +
  ref :: string

record create_ref_params = ref_params +
  sha :: string

record update_ref_params = create_ref_params +
  force :: bool

record create_tag_params = repo_info +
  ct_tag :: string
  ct_message :: string
  ct_object :: string
  ct_type :: string

record release_by_tag_params = repo_info +
  tag :: string

record delete_release_params = repo_info +
  release_id :: nat

record create_release_params = repo_info +
  tag_name :: string
  release_name :: string
  draft :: bool
  prerelease :: bool
  body :: string

record compare_commits_params = repo_info +
  base :: string
  head :: string

record list_pulls_params = repo_info +
  commit_sha :: string

text \<open>One entry of the tag listing; one commit of a comparison; one associated pull request.\<close>

record tag_item =
  name :: string
  tag_commit :: string

record commit_item =
  item_sha :: string
  item_message :: string

record pull_item =
  number :: nat
  html_url :: string

text \<open>
  Every call the program makes to the hosting platform, with its parameters, every command it
  sends to the workflow runner (\<open>@actions/core\<close>), and every exception raised, by a
  \<open>throw\<close> statement or by something the program calls. A run is observed as the list of
  these events in the order they happen.
\<close>

datatype call =
    CreateTag create_tag_params
  | CreateRef create_ref_params
  | UpdateRef update_ref_params
  | GetReleaseByTag release_by_tag_params
  | DeleteRelease delete_release_params
  | CreateRelease create_release_params
  | ListTags repo_info
  | GetRef ref_params
  | CompareCommits compare_commits_params
  | ListPullRequestsAssociatedWithCommit list_pulls_params
  | UploadReleaseArtifacts string "string list"

datatype event =
    StartGroup string
  | EndGroup
  | LogDebug string
  | LogInfo string
  | LogWarning string
  | LogError string
  | SetFailed string
  | ExportVariable string string
  | SetOutput string string
  | Call call
  | Thrown error

text \<open>
  An asynchronous function of the source is a computation that either throws or returns, and
  that performs events on the way: its value is the outcome together with the events performed.
  \<open>lift\<close> is a call of something outside the program that may throw, \<open>request\<close> a call
  to the hosting platform. \<open>bind\<close> is \<open>await\<close> followed by the rest of the function, \<open>catch\<close> is
  \<open>try { ... } catch (err) { ... }\<close>; what the \<open>try\<close> block did before it threw stays done.
\<close>

type_synonym 'a io = "(error + 'a) \<times> event list"

definition ret :: "'a \<Rightarrow> 'a io" where
  "ret x = (Inr x, [])"

definition throw :: "error \<Rightarrow> 'a io" where
  "throw e = (Inl e, [Thrown e])"

definition raised :: "error + 'a \<Rightarrow> event list" where
  "raised r = (case r of Inl e \<Rightarrow> [Thrown e] | Inr _ \<Rightarrow> [])"

definition lift :: "error + 'a \<Rightarrow> 'a io" where
  "lift r = (r, raised r)"

definition emit :: "event \<Rightarrow> unit io" where
  "emit ev = (Inr (), [ev])"

definition request :: "call \<Rightarrow> error + 'a \<Rightarrow> 'a io" where
  "request c r = (r, Call c # raised r)"

definition bind :: "'a io \<Rightarrow> ('a \<Rightarrow> 'b io) \<Rightarrow> 'b io" where
  "bind m f =
     (case m of
        (Inl e, out) \<Rightarrow> (Inl e, out)
      | (Inr x, out) \<Rightarrow> (case f x of (r, out') \<Rightarrow> (r, out @ out')))"

definition seq :: "unit io \<Rightarrow> 'b io \<Rightarrow> 'b io" where
  "seq m n = bind m (\<lambda>_. n)"

definition catch :: "'a io \<Rightarrow> (error \<Rightarrow> 'a io) \<Rightarrow> 'a io" where
  "catch m h =
     (case m of
        (Inl e, out) \<Rightarrow> (case h e of (r, out') \<Rightarrow> (r, out @ out'))
      | (Inr x, out) \<Rightarrow> (Inr x, out))"

section \<open>files.ts: artifact paths\<close>

text \<open>
  \<open>new Set(xs)\<close> followed by a spread back into an array: a JavaScript \<open>Set\<close> iterates in
  insertion order and adding a value that is already present changes nothing.
\<close>

definition Set_add :: "'a list \<Rightarrow> 'a \<Rightarrow> 'a list" where
  "Set_add s x = (if x \<in> set s then s else s @ [x])"

definition new_Set :: "'a list \<Rightarrow> 'a list" where
  "new_Set xs = foldl Set_add [] xs"

text \<open>\<open>`${paths}`\<close>: an array in a template literal is its elements joined by commas.\<close>

fun join_comma :: "string list \<Rightarrow> string" where
  "join_comma [] = []"
| "join_comma [x] = x"
| "join_comma (x # y # ys) = x @ '','' @ join_comma (y # ys)"

text \<open>
  The loop of \<open>getPaths\<close>, with the variable \<open>paths\<close> as accumulator. \<open>globby\<close> is the
  external glob expansion: it rejects or resolves to the matching paths.
\<close>

fun getPaths_loop :: "(string \<Rightarrow> error + string list) \<Rightarrow> string list \<Rightarrow> string list \<Rightarrow> string list io" where
  "getPaths_loop globby [] paths = ret paths"
| "getPaths_loop globby (fileGlob # files) paths =
     bind (lift (globby fileGlob)) (\<lambda>gpaths.
       if length gpaths = 0
       then seq (emit (LogError (fileGlob @ '' doesn't match any files'')))
                (getPaths_loop globby files paths)
       else getPaths_loop globby files (new_Set (paths @ gpaths)))"

definition getPaths :: "(string \<Rightarrow> error + string list) \<Rightarrow> string list \<Rightarrow> string list io" where
  "getPaths globby files =
     seq (emit (StartGroup ''Getting artifact paths from file globs''))
       (bind (getPaths_loop globby files []) (\<lambda>paths.
          seq (emit (LogDebug (''Artifact paths: '' @ join_comma paths)))
            (seq (emit EndGroup)
              (ret paths))))"

section \<open>sha.ts: artifact checksums\<close>

text \<open>
  The loop of \<open>getChecksums\<close>, with the variable \<open>markdown\<close> as accumulator.
  \<open>readFileSync\<close> throws or returns the file's bytes; \<open>sha256\<close> is the hex digest of
  \<open>sha.js\<close> and \<open>basename\<close> is \<open>path.basename\<close>, both taken as given.
\<close>

fun getChecksums_loop ::
  "(string \<Rightarrow> error + string) \<Rightarrow> (string \<Rightarrow> string) \<Rightarrow> (string \<Rightarrow> string) \<Rightarrow>
   string list \<Rightarrow> string \<Rightarrow> string io" where
  "getChecksums_loop readFileSync sha256 basename [] markdown = ret markdown"
| "getChecksums_loop readFileSync sha256 basename (filePath # paths) markdown =
     bind (lift (readFileSync filePath)) (\<lambda>buffer.
       let checksum = sha256 buffer
       in getChecksums_loop readFileSync sha256 basename paths
            (markdown @ checksum @ ''  '' @ basename filePath @ [CHR 0x0A]))"

definition getChecksums ::
  "(string \<Rightarrow> error + string) \<Rightarrow> (string \<Rightarrow> string) \<Rightarrow> (string \<Rightarrow> string) \<Rightarrow>
   string list \<Rightarrow> string io" where
  "getChecksums readFileSync sha256 basename paths =
     (let markdown = '''' in
      if int (length paths) < 0 then ret markdown
      else
        seq (emit (StartGroup ''Generating checksums for artifacts''))
          (bind (getChecksums_loop readFileSync sha256 basename paths
                   (markdown @ ''## Checksums'' @ [CHR 0x0A] @ ''sha256'' @ [CHR 0x0A] @ ''```'' @ [CHR 0x0A]))
             (\<lambda>markdown.
               let markdown = markdown @ ''```'' in
               seq (emit EndGroup) (ret markdown))))"

section \<open>main.ts: what the program takes from outside\<close>

text \<open>
  The hosting-platform client. Each operation rejects with an error or resolves; of a response the
  model keeps what the program reads (\<open>tagResponse.data.sha\<close>, \<open>resp.data.id\<close>,
  \<open>resp.data.upload_url\<close>, \<open>resp.data.commits\<close>, \<open>pulls.data\<close>, the paginated tag list).
\<close>

record github_client =
  git_createTag :: "create_tag_params \<Rightarrow> error + string"
  git_createRef :: "create_ref_params \<Rightarrow> error + unit"
  git_updateRef :: "update_ref_params \<Rightarrow> error + unit"
  git_getRef :: "ref_params \<Rightarrow> error + unit"
  repos_getReleaseByTag :: "release_by_tag_params \<Rightarrow> error + nat"
  repos_deleteRelease :: "delete_release_params \<Rightarrow> error + unit"
  repos_createRelease :: "create_release_params \<Rightarrow> error + string"
  repos_compareCommits :: "compare_commits_params \<Rightarrow> error + commit_item list"
  repos_listPullRequestsAssociatedWithCommit :: "list_pulls_params \<Rightarrow> error + pull_item list"
  paginate_listTags :: "repo_info \<Rightarrow> error + tag_item list"

text \<open>A call is the event of making it followed by the client's answer.\<close>

definition client_git_createTag :: "github_client \<Rightarrow> create_tag_params \<Rightarrow> string io" where
  "client_git_createTag client p = request (CreateTag p) (git_createTag client p)"

definition client_git_createRef :: "github_client \<Rightarrow> create_ref_params \<Rightarrow> unit io" where
  "client_git_createRef client p = request (CreateRef p) (git_createRef client p)"

definition client_git_updateRef :: "github_client \<Rightarrow> update_ref_params \<Rightarrow> unit io" where
  "client_git_updateRef client p = request (UpdateRef p) (git_updateRef client p)"

definition client_git_getRef :: "github_client \<Rightarrow> ref_params \<Rightarrow> unit io" where
  "client_git_getRef client p = request (GetRef p) (git_getRef client p)"

definition client_repos_getReleaseByTag :: "github_client \<Rightarrow> release_by_tag_params \<Rightarrow> nat io" where
  "client_repos_getReleaseByTag client p = request (GetReleaseByTag p) (repos_getReleaseByTag client p)"

definition client_repos_deleteRelease :: "github_client \<Rightarrow> delete_release_params \<Rightarrow> unit io" where
  "client_repos_deleteRelease client p = request (DeleteRelease p) (repos_deleteRelease client p)"

definition client_repos_createRelease :: "github_client \<Rightarrow> create_release_params \<Rightarrow> string io" where
  "client_repos_createRelease client p = request (CreateRelease p) (repos_createRelease client p)"

definition client_repos_compareCommits ::
  "github_client \<Rightarrow> compare_commits_params \<Rightarrow> commit_item list io" where
  "client_repos_compareCommits client p = request (CompareCommits p) (repos_compareCommits client p)"

definition client_repos_listPullRequestsAssociatedWithCommit ::
  "github_client \<Rightarrow> list_pulls_params \<Rightarrow> pull_item list io" where
  "client_repos_listPullRequestsAssociatedWithCommit client p =
     request (ListPullRequestsAssociatedWithCommit p) (repos_listPullRequestsAssociatedWithCommit client p)"

definition client_paginate_listTags :: "github_client \<Rightarrow> repo_info \<Rightarrow> tag_item list io" where
  "client_paginate_listTags client p = request (ListTags p) (paginate_listTags client p)"

text \<open>
  The workflow context: \<open>context.ref\<close>, \<open>context.sha\<close> and the getter \<open>context.repo\<close>,
  which can throw.
\<close>

record github_context =
  context_ref :: string
  context_sha :: string
  context_repo :: "error + repo_info"

text \<open>What the commit parser returns, and the \<open>extra\<close> object the program attaches to it.\<close>

record commit_extra =
  extra_commit :: commit_item
  pullRequests :: "(nat \<times> string) list"
  breakingChange :: bool

record parsed_commit =
  pc_header :: "string option"
  pc_body :: "string option"
  pc_footer :: "string option"
  pc_merge :: "string option"
  pc_extra :: "commit_extra option"

text \<open>
  Everything else the program imports and this development does not look into: the runner's
  inputs and \<open>JSON\<close>, the context and client constructors, the \<open>semver\<close> functions (their
  arguments are \<open>string | null\<close>, as the program passes them), the commit parser, the helpers
  of \<open>utils.ts\<close> and \<open>uploadReleaseArtifacts.ts\<close>, the file system, the digest. Each one
  that can throw returns a sum. \<open>'o\<close> is the type of the changelog options.
\<close>

record 'o deps =
  getInput :: "string \<Rightarrow> bool \<Rightarrow> error + string"
  JSON_parse :: "string \<Rightarrow> error + bool"
  JSON_stringify_context :: "github_context \<Rightarrow> string"
  JSON_stringify_commit :: "commit_item \<Rightarrow> string"
  JSON_stringify_parsed :: "parsed_commit \<Rightarrow> string"
  new_Context :: "error + github_context"
  new_GitHub :: "string \<Rightarrow> error + github_client"
  semverValid :: "string \<Rightarrow> string option"
  semverRcompare :: "string option \<Rightarrow> string option \<Rightarrow> int"
  semverLt :: "string option \<Rightarrow> string \<Rightarrow> bool"
  commitParser :: "string \<Rightarrow> 'o \<Rightarrow> error + parsed_commit"
  getChangelogOptions :: "error + 'o"
  dumpGitHubEventPayload :: "error + unit"
  isBreakingChange :: "string option \<Rightarrow> string option \<Rightarrow> error + bool"
  generateChangelogFromParsedCommits :: "parsed_commit list \<Rightarrow> error + string"
  parseGitTag :: "string \<Rightarrow> error + string"
  appendFullChangelogLink :: "string \<Rightarrow> string \<Rightarrow> string \<Rightarrow> string \<Rightarrow> string \<Rightarrow> error + string"
  uploadReleaseArtifacts :: "github_client \<Rightarrow> string \<Rightarrow> string list \<Rightarrow> error + unit"
  globby :: "string \<Rightarrow> error + string list"
  readFileSync :: "string \<Rightarrow> error + string"
  sha256 :: "string \<Rightarrow> string"
  basename :: "string \<Rightarrow> string"

section \<open>main.ts: JavaScript values\<close>

text \<open>A string is truthy when it is not empty; \<open>null\<close> is falsy.\<close>

definition truthy :: "string \<Rightarrow> bool" where
  "truthy s = (s \<noteq> [])"

definition truthy_or_null :: "string option \<Rightarrow> bool" where
  "truthy_or_null v = (case v of None \<Rightarrow> False | Some s \<Rightarrow> truthy s)"

text \<open>A number, and a string or \<open>null\<close>, inside a template literal.\<close>

fun show_nat :: "nat \<Rightarrow> string" where
  "show_nat n =
     (if n < 10 then [char_of (48 + n)]
      else show_nat (n div 10) @ [char_of (48 + n mod 10)])"

definition show_or_null :: "string option \<Rightarrow> string" where
  "show_or_null v = (case v of None \<Rightarrow> ''null'' | Some s \<Rightarrow> s)"

text \<open>\<open>str.split(/\r?\n/)\<close>: \<open>cur\<close> is the piece being read.\<close>

fun split_lines_from :: "string \<Rightarrow> string \<Rightarrow> string list" where
  "split_lines_from cur [] = [cur]"
| "split_lines_from cur (c # cs) =
     (if c = CHR 0x0A then cur # split_lines_from [] cs
      else if c = CHR 0x0D then
        (case cs of
           [] \<Rightarrow> split_lines_from (cur @ [c]) cs
         | d # ds \<Rightarrow>
             if d = CHR 0x0A then cur # split_lines_from [] ds
             else split_lines_from (cur @ [c]) cs)
      else split_lines_from (cur @ [c]) cs)"

definition split_lines :: "string \<Rightarrow> string list" where
  "split_lines str = split_lines_from [] str"

text \<open>
  \<open>Array.prototype.sort(cmp)\<close>: a stable sort; \<open>cmp a b \<le> 0\<close> keeps \<open>a\<close> before \<open>b\<close>.
  Written as insertion from the right end, which is stable. For a comparator that is a
  consistent ordering every stable sort returns this same list.
\<close>

fun insert_cmp :: "('a \<Rightarrow> 'a \<Rightarrow> int) \<Rightarrow> 'a \<Rightarrow> 'a list \<Rightarrow> 'a list" where
  "insert_cmp cmp x [] = [x]"
| "insert_cmp cmp x (y # ys) =
     (if cmp x y \<le> 0 then x # y # ys else y # insert_cmp cmp x ys)"

definition Array_sort :: "('a \<Rightarrow> 'a \<Rightarrow> int) \<Rightarrow> 'a list \<Rightarrow> 'a list" where
  "Array_sort cmp xs = foldr (insert_cmp cmp) xs []"

text \<open>\<open>xs.map(f)\<close> with a callback that performs events: element by element, in order.\<close>

fun map_io :: "('a \<Rightarrow> 'b io) \<Rightarrow> 'a list \<Rightarrow> 'b list io" where
  "map_io f [] = ret []"
| "map_io f (x # xs) = bind (f x) (\<lambda>y. bind (map_io f xs) (\<lambda>ys. ret (y # ys)))"

section \<open>main.ts: the functions\<close>

record args =
  repoToken :: string
  automaticReleaseTag :: string
  isTagStatic :: bool
  draftRelease :: bool
  preRelease :: bool
  releaseTitle :: string
  tagAnnotation :: string
  files :: "string list"

definition getAndValidateArgs :: "'o deps \<Rightarrow> args io" where
  "getAndValidateArgs deps =
     bind (lift (getInput deps ''repo_token'' True)) (\<lambda>repo_token.
     bind (lift (getInput deps ''automatic_release_tag'' False)) (\<lambda>automatic_release_tag.
     bind (lift (getInput deps ''is_tag_static'' False)) (\<lambda>is_tag_static_str.
     bind (lift (JSON_parse deps is_tag_static_str)) (\<lambda>is_tag_static.
     bind (lift (getInput deps ''draft'' True)) (\<lambda>draft_str.
     bind (lift (JSON_parse deps draft_str)) (\<lambda>draft'.
     bind (lift (getInput deps ''prerelease'' True)) (\<lambda>prerelease_str.
     bind (lift (JSON_parse deps prerelease_str)) (\<lambda>prerelease'.
     bind (lift (getInput deps ''title'' False)) (\<lambda>title.
     bind (lift (getInput deps ''tag_annotation'' False)) (\<lambda>tag_annotation.
       let args = \<lparr>repoToken = repo_token, automaticReleaseTag = automatic_release_tag,
                    isTagStatic = is_tag_static, draftRelease = draft', preRelease = prerelease',
                    releaseTitle = title, tagAnnotation = tag_annotation, files = []\<rparr> in
       bind (lift (getInput deps ''files'' False)) (\<lambda>inputFilesStr.
         let args = (if truthy inputFilesStr then args\<lparr>files := split_lines inputFilesStr\<rparr> else args)
         in ret args)))))))))))"

definition createReleaseTag :: "github_client \<Rightarrow> create_ref_params \<Rightarrow> string \<Rightarrow> unit io" where
  "createReleaseTag client refInfo message' =
     seq (emit (StartGroup ''Generating release tag''))
     (let friendlyTagName = drop 10 (ref refInfo) in
      seq (emit (LogInfo (''Attempting to create or update release tag \"'' @ friendlyTagName @ ''\"'')))
      (bind (client_git_createTag client
               \<lparr>owner = owner refInfo, repo = repo refInfo, ct_tag = friendlyTagName,
                ct_message = message', ct_object = sha refInfo, ct_type = ''commit''\<rparr>)
         (\<lambda>tagResponse_data_sha.
            let refInfo = refInfo\<lparr>sha := tagResponse_data_sha\<rparr> in
            seq (catch (client_git_createRef client refInfo)
                   (\<lambda>err.
                      let existingTag = drop 5 (ref refInfo) in
                      seq (emit (LogInfo (''Could not create new tag \"'' @ ref refInfo @ ''\" (''
                                   @ message err @ '') therefore updating existing tag \"''
                                   @ existingTag @ ''\"'')))
                        (client_git_updateRef client
                           (create_ref_params.extend (refInfo\<lparr>ref := existingTag\<rparr>)
                              (update_ref_params.fields True)))))
              (seq (emit (LogInfo (''Successfully created or updated the release tag \"''
                            @ friendlyTagName @ ''\"'')))
                 (emit EndGroup)))))"

definition deletePreviousGitHubRelease :: "github_client \<Rightarrow> release_by_tag_params \<Rightarrow> unit io" where
  "deletePreviousGitHubRelease client releaseInfo =
     seq (emit (StartGroup (''Deleting GitHub releases associated with the tag \"''
                  @ tag releaseInfo @ ''\"'')))
       (seq (catch
               (seq (emit (LogInfo (''Searching for releases corresponding to the \"''
                             @ tag releaseInfo @ ''\" tag'')))
                  (bind (client_repos_getReleaseByTag client releaseInfo) (\<lambda>resp_data_id.
                     seq (emit (LogInfo (''Deleting release: '' @ show_nat resp_data_id)))
                       (client_repos_deleteRelease client
                          \<lparr>owner = owner releaseInfo, repo = repo releaseInfo,
                           release_id = resp_data_id\<rparr>))))
               (\<lambda>err. emit (LogInfo (''Could not find release associated with tag \"''
                               @ tag releaseInfo @ ''\" ('' @ message err @ '')''))))
          (emit EndGroup))"

definition generateNewGitHubRelease :: "github_client \<Rightarrow> create_release_params \<Rightarrow> string io" where
  "generateNewGitHubRelease client releaseInfo =
     seq (emit (StartGroup (''Generating new GitHub release for the \"''
                  @ tag_name releaseInfo @ ''\" tag'')))
       (seq (emit (LogInfo ''Creating new release''))
          (bind (client_repos_createRelease client releaseInfo) (\<lambda>resp_data_upload_url.
             seq (emit EndGroup) (ret resp_data_upload_url))))"

text \<open>A listed tag with the field \<open>semverTag\<close> that \<open>{...tag, semverTag: t}\<close> adds.\<close>

record sv_tag = tag_item +
  semverTag :: "string option"

text \<open>The \<open>for\<close> loop of \<open>searchForPreviousReleaseTag\<close>; \<open>break\<close> is returning the variable.\<close>

fun searchForPreviousReleaseTag_loop ::
  "(string option \<Rightarrow> string \<Rightarrow> bool) \<Rightarrow> string \<Rightarrow> sv_tag list \<Rightarrow> string \<Rightarrow> string" where
  "searchForPreviousReleaseTag_loop lt currentReleaseTag [] previousReleaseTag = previousReleaseTag"
| "searchForPreviousReleaseTag_loop lt currentReleaseTag (t # tagList) previousReleaseTag =
     (if lt (semverTag t) currentReleaseTag then name t
      else searchForPreviousReleaseTag_loop lt currentReleaseTag tagList previousReleaseTag)"

definition searchForPreviousReleaseTag ::
  "'o deps \<Rightarrow> github_client \<Rightarrow> string \<Rightarrow> repo_info \<Rightarrow> string io" where
  "searchForPreviousReleaseTag deps client currentReleaseTag tagInfo =
     (let validSemver = semverValid deps currentReleaseTag in
      if \<not> truthy_or_null validSemver
      then throw (Error ''Cannot find previous release tag because the tag does not appear to conform to semantic versioning.'')
      else
        bind (client_paginate_listTags client tagInfo) (\<lambda>tl.
        bind (map_io (\<lambda>t.
                seq (emit (LogDebug (''Currently processing tag '' @ name t)))
                  (let v = semverValid deps (name t)
                   in ret (tag_item.extend t (sv_tag.fields v)))) tl) (\<lambda>mapped.
          let tagList =
                Array_sort (\<lambda>a b. semverRcompare deps (semverTag a) (semverTag b))
                  (filter (\<lambda>t. semverTag t \<noteq> None) mapped);
              previousReleaseTag = [] in
          ret (searchForPreviousReleaseTag_loop (semverLt deps) currentReleaseTag tagList
                 previousReleaseTag))))"

text \<open>
  The variable \<open>resp\<close> of \<open>getCommitsSinceRelease\<close> holds nothing, the answer of
  \<open>getRef\<close> (which has no field \<open>commits\<close>) or the answer of \<open>compareCommits\<close>;
  \<open>resp?.data?.commits\<close> reads it.
\<close>

datatype response = GetRefResponse | CompareCommitsResponse "commit_item list"

definition resp_data_commits :: "response option \<Rightarrow> commit_item list option" where
  "resp_data_commits resp =
     (case resp of
        None \<Rightarrow> None
      | Some GetRefResponse \<Rightarrow> None
      | Some (CompareCommitsResponse commits) \<Rightarrow> Some commits)"

text \<open>
  In the first \<open>try\<close> block \<open>resp\<close> is assigned before \<open>parseGitTag\<close> runs, so the one
  \<open>catch\<close> block of the source is entered with \<open>resp\<close> unset (the call threw) or set
  (\<open>parseGitTag\<close> threw); the block itself is the same, here \<open>getRef_catch\<close>.
\<close>

definition getRef_catch ::
  "ref_params \<Rightarrow> response option \<Rightarrow> error \<Rightarrow> (response option \<times> string) io" where
  "getRef_catch tagInfo resp err =
     seq (emit (LogInfo (''Could not find SHA corresponding to tag \"'' @ ref tagInfo @ ''\" (''
                  @ message err @ ''). Assuming this is the first release.'')))
       (let previousReleaseRef = ''HEAD'' in ret (resp, previousReleaseRef))"

definition getCommitsSinceRelease ::
  "'o deps \<Rightarrow> github_client \<Rightarrow> ref_params \<Rightarrow> string \<Rightarrow> commit_item list io" where
  "getCommitsSinceRelease deps client tagInfo currentSha =
     seq (emit (StartGroup ''Retrieving commit history''))
     (seq (emit (LogInfo ''Determining state of the previous release''))
     (seq (emit (LogInfo (''Searching for SHA corresponding to previous \"'' @ ref tagInfo
                   @ ''\" release tag'')))
     (bind (catch
              (bind (client_git_getRef client tagInfo) (\<lambda>_.
                 catch (bind (lift (parseGitTag deps (ref tagInfo))) (\<lambda>previousReleaseRef.
                          ret (Some GetRefResponse, previousReleaseRef)))
                   (getRef_catch tagInfo (Some GetRefResponse))))
              (getRef_catch tagInfo None))
        (\<lambda>(resp, previousReleaseRef).
     seq (emit (LogInfo (''Retrieving commits between '' @ previousReleaseRef @ '' and '' @ currentSha)))
     (bind (catch
              (bind (client_repos_compareCommits client
                       \<lparr>owner = owner tagInfo, repo = repo tagInfo,
                        base = previousReleaseRef, head = currentSha\<rparr>) (\<lambda>resp_data_commits'.
                 seq (emit (LogInfo (''Successfully retrieved '' @ show_nat (length resp_data_commits')
                              @ '' commits between '' @ previousReleaseRef @ '' and '' @ currentSha)))
                   (ret (Some (CompareCommitsResponse resp_data_commits')))))
              (\<lambda>err.
                 seq (emit (LogWarning (''Could not find any commits between '' @ previousReleaseRef
                              @ '' and '' @ currentSha)))
                   (ret resp)))
        (\<lambda>resp.
     let commits = (case resp_data_commits resp of Some cs \<Rightarrow> cs | None \<Rightarrow> []) in
     seq (emit (LogDebug (''Currently '' @ show_nat (length commits) @ '' number of commits between ''
                  @ previousReleaseRef @ '' and '' @ currentSha)))
     (seq (emit EndGroup)
     (ret commits))))))))"

text \<open>The loop of \<open>getChangelog\<close>, with the array \<open>parsedCommits\<close> as accumulator.\<close>

fun getChangelog_loop ::
  "'o deps \<Rightarrow> github_client \<Rightarrow> string \<Rightarrow> string \<Rightarrow> commit_item list \<Rightarrow> parsed_commit list \<Rightarrow>
   parsed_commit list io" where
  "getChangelog_loop deps client owner' repo' [] parsedCommits = ret parsedCommits"
| "getChangelog_loop deps client owner' repo' (commit # commits) parsedCommits =
     seq (emit (LogDebug (''Processing commit: '' @ JSON_stringify_commit deps commit)))
     (seq (emit (LogDebug (''Searching for pull requests associated with commit '' @ item_sha commit)))
     (bind (client_repos_listPullRequestsAssociatedWithCommit client
              \<lparr>owner = owner', repo = repo', commit_sha = item_sha commit\<rparr>) (\<lambda>pulls_data.
     seq (if length pulls_data \<noteq> 0
          then emit (LogInfo (''Found '' @ show_nat (length pulls_data)
                      @ '' pull request(s) associated with commit '' @ item_sha commit))
          else ret ())
     (bind (lift (getChangelogOptions deps)) (\<lambda>clOptions.
     bind (lift (commitParser deps (item_message commit) clOptions)) (\<lambda>parsedCommitMsg.
       if truthy_or_null (pc_merge parsedCommitMsg)
       then seq (emit (LogDebug (''Ignoring merge commit: '' @ show_or_null (pc_merge parsedCommitMsg))))
              (getChangelog_loop deps client owner' repo' commits parsedCommits)
       else
         let extra = \<lparr>extra_commit = commit, pullRequests = [], breakingChange = False\<rparr>;
             extra = extra\<lparr>pullRequests := map (\<lambda>pr. (number pr, html_url pr)) pulls_data\<rparr> in
         bind (lift (isBreakingChange deps (pc_body parsedCommitMsg) (pc_footer parsedCommitMsg)))
           (\<lambda>breaking.
              let extra = extra\<lparr>breakingChange := breaking\<rparr>;
                  parsedCommitMsg = parsedCommitMsg\<lparr>pc_extra := Some extra\<rparr> in
              seq (emit (LogDebug (''Parsed commit: '' @ JSON_stringify_parsed deps parsedCommitMsg)))
              (seq (emit (LogInfo (''Adding commit \"'' @ show_or_null (pc_header parsedCommitMsg)
                            @ ''\" to the changelog'')))
              (getChangelog_loop deps client owner' repo' commits
                 (parsedCommits @ [parsedCommitMsg]))))))))))"

definition getChangelog ::
  "'o deps \<Rightarrow> github_client \<Rightarrow> string \<Rightarrow> string \<Rightarrow> commit_item list \<Rightarrow> string io" where
  "getChangelog deps client owner' repo' commits =
     seq (emit (StartGroup ''Generating changelog''))
     (bind (getChangelog_loop deps client owner' repo' commits []) (\<lambda>parsedCommits.
      bind (lift (generateChangelogFromParsedCommits deps parsedCommits)) (\<lambda>changelog.
      seq (emit (LogDebug ''Changelog:''))
      (seq (emit (LogDebug changelog))
      (seq (emit EndGroup)
      (ret changelog))))))"

definition main :: "'o deps \<Rightarrow> unit io" where
  "main deps =
     catch
       (bind (getAndValidateArgs deps) (\<lambda>args.
        bind (lift (new_Context deps)) (\<lambda>context.
        bind (lift (new_GitHub deps (repoToken args))) (\<lambda>client.
        seq (emit (StartGroup ''Initializing the Automatic Releases action''))
        (bind (lift (dumpGitHubEventPayload deps)) (\<lambda>_.
        seq (emit (LogDebug (''Github context: '' @ JSON_stringify_context deps context)))
        (seq (emit EndGroup)
        (seq (emit (StartGroup ''Determining release tags''))
        (bind (if truthy (automaticReleaseTag args) then ret (automaticReleaseTag args)
               else lift (parseGitTag deps (context_ref context))) (\<lambda>releaseTag.
        if \<not> truthy releaseTag
        then throw (Error (''The parameter \"automatic_release_tag\" was not set and this does not appear to be a GitHub tag event. (Event: ''
                      @ context_ref context @ '')''))
        else
        bind (lift (context_repo context)) (\<lambda>context_repo'.
        let repoInfo = \<lparr>owner = owner context_repo', repo = repo context_repo'\<rparr> in
        bind (if isTagStatic args then ret (automaticReleaseTag args)
              else searchForPreviousReleaseTag deps client releaseTag repoInfo) (\<lambda>previousReleaseTag.
        seq (emit EndGroup)
        (bind (getCommitsSinceRelease deps client
                 (repo_info.extend repoInfo (ref_params.fields (''tags/'' @ previousReleaseTag)))
                 (context_sha context)) (\<lambda>commitsSinceRelease.
        bind (getChangelog deps client (owner repoInfo) (repo repoInfo) commitsSinceRelease) (\<lambda>changelog'.
        bind (lift (appendFullChangelogLink deps changelog' (owner repoInfo) (repo repoInfo)
                      previousReleaseTag releaseTag)) (\<lambda>changelog.
        bind (getPaths (globby deps) (files args)) (\<lambda>artifactPaths.
        bind (getChecksums (readFileSync deps) (sha256 deps) (basename deps) artifactPaths) (\<lambda>checksums.
        seq (if truthy (automaticReleaseTag args)
             then seq (createReleaseTag client
                         \<lparr>owner = owner repoInfo, repo = repo repoInfo,
                          ref = ''refs/tags/'' @ automaticReleaseTag args, sha = context_sha context\<rparr>
                         (if truthy (tagAnnotation args) then tagAnnotation args else []))
                    (deletePreviousGitHubRelease client
                       \<lparr>owner = owner repoInfo, repo = repo repoInfo, tag = automaticReleaseTag args\<rparr>)
             else ret ())
        (bind (generateNewGitHubRelease client
                 \<lparr>owner = owner repoInfo, repo = repo repoInfo, tag_name = releaseTag,
                  release_name = (if truthy (releaseTitle args) then releaseTitle args else releaseTag),
                  draft = draftRelease args, prerelease = preRelease args,
                  body = changelog @ [CHR 0x0A, CHR 0x0A] @ checksums\<rparr>) (\<lambda>releaseUploadUrl.
        seq (request (UploadReleaseArtifacts releaseUploadUrl artifactPaths)
               (uploadReleaseArtifacts deps client releaseUploadUrl artifactPaths))
        (seq (emit (LogDebug (''Exporting environment variable AUTOMATIC_RELEASES_TAG with value ''
                      @ releaseTag)))
        (seq (emit (ExportVariable ''AUTOMATIC_RELEASES_TAG'' releaseTag))
        (seq (emit (SetOutput ''automatic_releases_tag'' releaseTag))
        (emit (SetOutput ''upload_url'' releaseUploadUrl)))))))))))))))))))))))))
       (\<lambda>error.
          seq (emit (SetFailed (message error)))
            (throw error))"

section \<open>Vocabulary of the properties and example inputs\<close>

definition is_LogError :: "event \<Rightarrow> bool" where
  "is_LogError ev = (case ev of LogError _ \<Rightarrow> True | _ \<Rightarrow> False)"

text \<open>The position at which \<open>x\<close> first occurs in \<open>xs\<close> (the length of \<open>xs\<close> if it never does).\<close>

definition first_index :: "'a list \<Rightarrow> 'a \<Rightarrow> nat" where
  "first_index xs x = length (takeWhile (\<lambda>y. y \<noteq> x) xs)"

text \<open>
  The vocabulary of the tag resolver's property. The versions of the listed tags that are
  versions at all; a tag that is a version older than the candidate; one tag's version older
  than another's; a listed tag with its \<open>semverTag\<close>; the sorted list the loop scans.
\<close>

definition listed_versions :: "'o deps \<Rightarrow> tag_item list \<Rightarrow> string list" where
  "listed_versions deps tags = List.map_filter (\<lambda>t. semverValid deps (name t)) tags"

definition older :: "'o deps \<Rightarrow> string \<Rightarrow> tag_item \<Rightarrow> bool" where
  "older deps c t =
     (case semverValid deps (name t) of None \<Rightarrow> False | Some v \<Rightarrow> semverLt deps (Some v) c)"

definition version_lt :: "'o deps \<Rightarrow> tag_item \<Rightarrow> tag_item \<Rightarrow> bool" where
  "version_lt deps t u =
     (case (semverValid deps (name t), semverValid deps (name u)) of
        (Some tv, Some uv) \<Rightarrow> semverLt deps (Some tv) uv
      | _ \<Rightarrow> False)"

definition with_semverTag :: "'o deps \<Rightarrow> tag_item \<Rightarrow> sv_tag" where
  "with_semverTag deps t = tag_item.extend t (sv_tag.fields (semverValid deps (name t)))"

definition sorted_tags :: "'o deps \<Rightarrow> tag_item list \<Rightarrow> sv_tag list" where
  "sorted_tags deps tags =
     Array_sort (\<lambda>a b. semverRcompare deps (semverTag a) (semverTag b))
       (filter (\<lambda>t. semverTag t \<noteq> None) (map (with_semverTag deps) tags))"

text \<open>
  What the property takes for granted about the \<open>semver\<close> library, on the versions \<open>vs\<close>:
  \<open>rcompare\<close> is a total and transitive ordering (\<open>rcompare a b \<le> 0\<close>: \<open>a\<close> is not
  older than \<open>b\<close>), and \<open>lt a b\<close> says the same as \<open>rcompare a b > 0\<close>.
\<close>

definition semver_consistent :: "'o deps \<Rightarrow> string list \<Rightarrow> bool" where
  "semver_consistent deps vs =
     (\<forall>a\<in>set vs. \<forall>b\<in>set vs.
        (semverRcompare deps (Some a) (Some b) \<le> 0 \<or> semverRcompare deps (Some b) (Some a) \<le> 0) \<and>
        (semverLt deps (Some a) b \<longleftrightarrow> 0 < semverRcompare deps (Some a) (Some b)) \<and>
        (\<forall>c\<in>set vs. semverRcompare deps (Some a) (Some b) \<le> 0 \<and>
                     semverRcompare deps (Some b) (Some c) \<le> 0 \<longrightarrow>
                     semverRcompare deps (Some a) (Some c) \<le> 0))"

text \<open>
  The vocabulary of the orchestration properties. The calls among the events of a run; a
  property of all of them.
\<close>

definition calls :: "event list \<Rightarrow> call list" where
  "calls evs = List.map_filter (\<lambda>ev. case ev of Call c \<Rightarrow> Some c | _ \<Rightarrow> None) evs"

definition all_calls :: "(call \<Rightarrow> bool) \<Rightarrow> 'a io \<Rightarrow> bool" where
  "all_calls P m = list_all P (calls (snd m))"

named_theorems all_calls_intros

definition is_SetFailed :: "event \<Rightarrow> bool" where
  "is_SetFailed ev = (case ev of SetFailed _ \<Rightarrow> True | _ \<Rightarrow> False)"

text \<open>
  The base of the comparison that \<open>getCommitsSinceRelease\<close> requests: what
  \<open>parseGitTag\<close> makes of the previous tag's ref when the ref is found, \<open>HEAD\<close> otherwise.
\<close>

definition comparison_base :: "'o deps \<Rightarrow> github_client \<Rightarrow> ref_params \<Rightarrow> string" where
  "comparison_base deps client tagInfo =
     (case git_getRef client tagInfo of
        Inl _ \<Rightarrow> ''HEAD''
      | Inr _ \<Rightarrow> (case parseGitTag deps (ref tagInfo) of Inl _ \<Rightarrow> ''HEAD'' | Inr p \<Rightarrow> p))"

text \<open>
  The three requests of \<open>createReleaseTag\<close>, for the ref it is given, the annotation and the
  sha of the tag object once created.
\<close>

definition createTag_request :: "create_ref_params \<Rightarrow> string \<Rightarrow> create_tag_params" where
  "createTag_request refInfo annotation =
     \<lparr>owner = owner refInfo, repo = repo refInfo, ct_tag = drop 10 (ref refInfo),
      ct_message = annotation, ct_object = sha refInfo, ct_type = ''commit''\<rparr>"

definition createRef_request :: "create_ref_params \<Rightarrow> string \<Rightarrow> create_ref_params" where
  "createRef_request refInfo tag_sha =
     \<lparr>owner = owner refInfo, repo = repo refInfo, ref = ref refInfo, sha = tag_sha\<rparr>"

definition updateRef_request :: "create_ref_params \<Rightarrow> string \<Rightarrow> update_ref_params" where
  "updateRef_request refInfo tag_sha =
     \<lparr>owner = owner refInfo, repo = repo refInfo, ref = drop 5 (ref refInfo), sha = tag_sha,
      force = True\<rparr>"

text \<open>
  The calls of the release publisher by the API method called, in the order made; every other
  call is \<open>M_other\<close> and left out.
\<close>

datatype api_method =
  M_createTag | M_createRef | M_updateRef | M_getReleaseByTag | M_deleteRelease | M_createRelease
  | M_other

fun method_of :: "call \<Rightarrow> api_method" where
  "method_of (CreateTag p) = M_createTag"
| "method_of (CreateRef p) = M_createRef"
| "method_of (UpdateRef p) = M_updateRef"
| "method_of (GetReleaseByTag p) = M_getReleaseByTag"
| "method_of (DeleteRelease p) = M_deleteRelease"
| "method_of (CreateRelease p) = M_createRelease"
| "method_of c = M_other"

definition publisher_calls :: "event list \<Rightarrow> api_method list" where
  "publisher_calls evs = filter (\<lambda>m. m \<noteq> M_other) (map method_of (calls evs))"

text \<open>
  The publisher's calls of a run with an explicit release tag, paired with whether the run
  threw: nothing (the run threw earlier), the tag object alone or the tag object and both ref
  calls (the run threw there), or one of four complete sequences, after which the run may still
  throw (release creation or upload).
\<close>

definition publisher_sequences :: "api_method list list" where
  "publisher_sequences =
     [[M_createTag, M_createRef, M_getReleaseByTag, M_createRelease],
      [M_createTag, M_createRef, M_updateRef, M_getReleaseByTag, M_createRelease],
      [M_createTag, M_createRef, M_getReleaseByTag, M_deleteRelease, M_createRelease],
      [M_createTag, M_createRef, M_updateRef, M_getReleaseByTag, M_deleteRelease, M_createRelease]]"

definition publisher_runs :: "(bool \<times> api_method list) list" where
  "publisher_runs =
     [(True, []), (True, [M_createTag]), (True, [M_createTag, M_createRef, M_updateRef])]
     @ concat (map (\<lambda>s. [(False, s), (True, s)]) publisher_sequences)"

definition publisher_run :: "'a io \<Rightarrow> bool" where
  "publisher_run m = ((isl (fst m), publisher_calls (snd m)) \<in> set publisher_runs)"

named_theorems publisher_run_intros

text \<open>
  The error a call is answered with, if any; the calls whose error a \<open>try\<close> block around
  them catches; and what it means for errors to propagate: a call made, answered with an error
  and not of the caught kind, makes that error the outcome.
\<close>

fun failure :: "'o deps \<Rightarrow> github_client \<Rightarrow> call \<Rightarrow> error option" where
  "failure deps client (CreateTag p) = (case git_createTag client p of Inl e \<Rightarrow> Some e | Inr _ \<Rightarrow> None)"
| "failure deps client (CreateRef p) = (case git_createRef client p of Inl e \<Rightarrow> Some e | Inr _ \<Rightarrow> None)"
| "failure deps client (UpdateRef p) = (case git_updateRef client p of Inl e \<Rightarrow> Some e | Inr _ \<Rightarrow> None)"
| "failure deps client (GetReleaseByTag p) =
     (case repos_getReleaseByTag client p of Inl e \<Rightarrow> Some e | Inr _ \<Rightarrow> None)"
| "failure deps client (DeleteRelease p) =
     (case repos_deleteRelease client p of Inl e \<Rightarrow> Some e | Inr _ \<Rightarrow> None)"
| "failure deps client (CreateRelease p) =
     (case repos_createRelease client p of Inl e \<Rightarrow> Some e | Inr _ \<Rightarrow> None)"
| "failure deps client (ListTags p) = (case paginate_listTags client p of Inl e \<Rightarrow> Some e | Inr _ \<Rightarrow> None)"
| "failure deps client (GetRef p) = (case git_getRef client p of Inl e \<Rightarrow> Some e | Inr _ \<Rightarrow> None)"
| "failure deps client (CompareCommits p) =
     (case repos_compareCommits client p of Inl e \<Rightarrow> Some e | Inr _ \<Rightarrow> None)"
| "failure deps client (ListPullRequestsAssociatedWithCommit p) =
     (case repos_listPullRequestsAssociatedWithCommit client p of Inl e \<Rightarrow> Some e | Inr _ \<Rightarrow> None)"
| "failure deps client (UploadReleaseArtifacts url paths) =
     (case uploadReleaseArtifacts deps client url paths of Inl e \<Rightarrow> Some e | Inr _ \<Rightarrow> None)"

fun recovered :: "call \<Rightarrow> bool" where
  "recovered (CreateRef p) = True"
| "recovered (GetReleaseByTag p) = True"
| "recovered (DeleteRelease p) = True"
| "recovered (GetRef p) = True"
| "recovered (CompareCommits p) = True"
| "recovered c = False"

definition propagates :: "(call \<Rightarrow> error option) \<Rightarrow> 'a io \<Rightarrow> bool" where
  "propagates fl m =
     (\<forall>c\<in>set (calls (snd m)). \<forall>e. fl c = Some e \<and> \<not> recovered c \<longrightarrow> fst m = Inl e)"

named_theorems propagates_intros

text \<open>
  Raised errors. The log line with which each of the four \<open>catch\<close> blocks inside the
  functions begins (the top-level one begins with \<open>setFailed\<close>); a list of events in which
  every exception raised is followed at once by such a line, that is, was caught where it was
  raised; and a computation all of whose exceptions were caught in this way, but for the one it
  ends with when it throws.
\<close>

definition starts_with :: "string \<Rightarrow> string \<Rightarrow> bool" where
  "starts_with p s = (take (length p) s = p)"

definition is_recovery_log :: "event \<Rightarrow> bool" where
  "is_recovery_log ev =
     (case ev of
        LogInfo m \<Rightarrow>
          starts_with ''Could not create new tag '' m \<or>
          starts_with ''Could not find release associated with tag '' m \<or>
          starts_with ''Could not find SHA corresponding to tag '' m
      | LogWarning m \<Rightarrow> starts_with ''Could not find any commits between '' m
      | _ \<Rightarrow> False)"

fun settled :: "event list \<Rightarrow> bool" where
  "settled [] = True"
| "settled (Thrown e # evs) =
     (case evs of [] \<Rightarrow> False | ev # _ \<Rightarrow> is_recovery_log ev \<and> settled evs)"
| "settled (ev # evs) = settled evs"

definition errors_handled :: "'a io \<Rightarrow> bool" where
  "errors_handled m =
     (case fst m of
        Inl e \<Rightarrow> (\<exists>tr. snd m = tr @ [Thrown e] \<and> settled tr)
      | Inr _ \<Rightarrow> settled (snd m))"

named_theorems errors_handled_intros

text \<open>
  Failed requests. The operation of the hosting platform that a call requests; a call is
  attempted again when its operation is requested once more later in the run. What may follow
  a call that was answered with an error: after the ref creation the forced update of the same
  ref to the same object comes next; any other operation is not requested again, and unless
  the call is one of those whose error a \<open>catch\<close> block inside the functions catches,
  nothing at all is requested after it. A list of calls, with \<open>fl\<close> giving the error each
  was answered with, is \<open>failures_handled\<close> when every failed call is followed in this way.
\<close>

fun operation :: "call \<Rightarrow> string" where
  "operation (CreateTag p) = ''git.createTag''"
| "operation (CreateRef p) = ''git.createRef''"
| "operation (UpdateRef p) = ''git.updateRef''"
| "operation (GetReleaseByTag p) = ''repos.getReleaseByTag''"
| "operation (DeleteRelease p) = ''repos.deleteRelease''"
| "operation (CreateRelease p) = ''repos.createRelease''"
| "operation (ListTags p) = ''repos.listTags''"
| "operation (GetRef p) = ''git.getRef''"
| "operation (CompareCommits p) = ''repos.compareCommits''"
| "operation (ListPullRequestsAssociatedWithCommit p) = ''repos.listPullRequestsAssociatedWithCommit''"
| "operation (UploadReleaseArtifacts url paths) = ''uploadReleaseArtifacts''"

definition reattempted :: "call \<Rightarrow> call list \<Rightarrow> bool" where
  "reattempted c rest = (operation c \<in> set (map operation rest))"

fun after_failure :: "call \<Rightarrow> call list \<Rightarrow> bool" where
  "after_failure (CreateRef p) rest =
     (case rest of
        [] \<Rightarrow> False
      | c # cs \<Rightarrow> c = UpdateRef (updateRef_request p (sha p)) \<and> \<not> reattempted (CreateRef p) rest)"
| "after_failure c rest = (\<not> reattempted c rest \<and> (recovered c \<or> rest = []))"

fun failures_handled :: "(call \<Rightarrow> error option) \<Rightarrow> call list \<Rightarrow> bool" where
  "failures_handled fl [] = True"
| "failures_handled fl (c # rest) =
     ((fl c = None \<or> after_failure c rest) \<and> failures_handled fl rest)"

text \<open>
  Two properties of a computation from which that of a whole run is put together.
  \<open>halts\<close> holds of code without a \<open>catch\<close> block: none of its calls is one of the
  caught ones, and all of them but the last one of a computation that throws were answered
  without error. \<open>handled\<close>: the calls made are \<open>failures_handled\<close>.
\<close>

definition halts :: "(call \<Rightarrow> error option) \<Rightarrow> 'a io \<Rightarrow> bool" where
  "halts fl m =
     (list_all (\<lambda>c. fl c = None)
        (case fst m of Inl _ \<Rightarrow> butlast (calls (snd m)) | Inr _ \<Rightarrow> calls (snd m)) \<and>
      list_all (\<lambda>c. \<not> recovered c) (calls (snd m)))"

definition handled :: "(call \<Rightarrow> error option) \<Rightarrow> 'a io \<Rightarrow> bool" where
  "handled fl m = failures_handled fl (calls (snd m))"

named_theorems halts_intros
named_theorems handled_intros

text \<open>
  The calls of the release publisher among the events, with their parameters; and what a run
  with the explicit release tag \<open>t\<close> has requested of the publisher, by how far it got: nothing
  (it threw before), the calls of \<open>createReleaseTag\<close> (which threw), or these followed by
  the release lookup, the deletion of the release found if one was found, and the creation of
  the new release for \<open>t\<close>. The client, the repository, the commit and the annotation are
  those of the run.
\<close>

definition publisher_requests :: "event list \<Rightarrow> call list" where
  "publisher_requests evs = filter (\<lambda>c. method_of c \<noteq> M_other) (calls evs)"

definition published :: "'o deps \<Rightarrow> string \<Rightarrow> 'a io \<Rightarrow> bool" where
  "published deps t m =
     (isl (fst m) \<and> publisher_requests (snd m) = [] \<or>
      (\<exists>token client ctx rp ann.
         getInput deps ''repo_token'' True = Inr token \<and> new_GitHub deps token = Inr client \<and>
         new_Context deps = Inr ctx \<and> context_repo ctx = Inr rp \<and>
         getInput deps ''tag_annotation'' False = Inr ann \<and>
         (let refInfo = \<lparr>owner = owner rp, repo = repo rp, ref = ''refs/tags/'' @ t,
                         sha = context_sha ctx\<rparr>;
              releaseInfo = \<lparr>owner = owner rp, repo = repo rp, tag = t\<rparr>
          in (\<exists>e. fst (createReleaseTag client refInfo ann) = Inl e \<and> fst m = Inl e \<and>
                   publisher_requests (snd m) = calls (snd (createReleaseTag client refInfo ann))) \<or>
             fst (createReleaseTag client refInfo ann) = Inr () \<and>
             (\<exists>newRelease.
                owner newRelease = owner rp \<and> repo newRelease = repo rp \<and>
                tag_name newRelease = t \<and>
                publisher_requests (snd m) =
                  calls (snd (createReleaseTag client refInfo ann)) @
                  (case repos_getReleaseByTag client releaseInfo of
                     Inl _ \<Rightarrow> [GetReleaseByTag releaseInfo]
                   | Inr found \<Rightarrow>
                       [GetReleaseByTag releaseInfo,
                        DeleteRelease \<lparr>owner = owner rp, repo = repo rp, release_id = found\<rparr>]) @
                  [CreateRelease newRelease]))))"

named_theorems published_intros

text \<open>A small file system: two patterns that overlap on \<open>a.jar\<close>, any other pattern matches nothing.\<close>

definition example_globby :: "string \<Rightarrow> error + string list" where
  "example_globby g =
     (if g = ''*.jar'' then Inr [''a.jar'', ''b.jar'']
      else if g = ''a.*'' then Inr [''a.txt'', ''a.jar'']
      else Inr [])"

definition example_matches :: "string \<Rightarrow> string list" where
  "example_matches g =
     (if g = ''*.jar'' then [''a.jar'', ''b.jar'']
      else if g = ''a.*'' then [''a.txt'', ''a.jar'']
      else [])"

text \<open>Two readable files with the same content \<open>x\<close>; every other path is missing.\<close>

definition example_readFileSync :: "string \<Rightarrow> error + string" where
  "example_readFileSync p =
     (if p = ''out/a.txt'' \<or> p = ''out/b.txt'' then Inr ''x''
      else Inl (Error (''ENOENT: no such file or directory, open '' @ p)))"

text \<open>The SHA-256 digests of \<open>x\<close> and of the empty file, as a table.\<close>

definition example_sha256 :: "string \<Rightarrow> string" where
  "example_sha256 buffer =
     (if buffer = ''x'' then ''2d711642b726b04401627ca9fbac32f5c8530fb1903cc4db02258717921a4881''
      else ''e3b0c44298fc1c149afbf4c8996fb92427ae41e4649b934ca495991b7852b855'')"

definition example_basename :: "string \<Rightarrow> string" where
  "example_basename p = rev (takeWhile (\<lambda>c. c \<noteq> CHR ''/'') (rev p))"

text \<open>
  A small stand-in for the \<open>semver\<close> library, for the examples only: versions are
  \<open>MAJOR.MINOR.PATCH\<close> with an optional leading \<open>v\<close>, compared number by number.
\<close>

fun example_split_dots :: "string \<Rightarrow> string \<Rightarrow> string list" where
  "example_split_dots cur [] = [cur]"
| "example_split_dots cur (c # cs) =
     (if c = CHR ''.'' then cur # example_split_dots [] cs
      else example_split_dots (cur @ [c]) cs)"

definition example_is_numeric :: "string \<Rightarrow> bool" where
  "example_is_numeric s =
     (s \<noteq> [] \<and> list_all (\<lambda>c. c \<in> set ''0123456789'') s \<and> (length s = 1 \<or> hd s \<noteq> CHR ''0''))"

definition example_number :: "string \<Rightarrow> nat" where
  "example_number s = foldl (\<lambda>n c. 10 * n + (of_char c - 48)) 0 s"

definition example_parse :: "string \<Rightarrow> (nat \<times> nat \<times> nat) option" where
  "example_parse s =
     (case example_split_dots [] (case s of [] \<Rightarrow> [] | c # cs \<Rightarrow> if c = CHR ''v'' then cs else s) of
        [a, b, c] \<Rightarrow>
          if example_is_numeric a \<and> example_is_numeric b \<and> example_is_numeric c
          then Some (example_number a, example_number b, example_number c)
          else None
      | _ \<Rightarrow> None)"

fun example_compare :: "nat \<times> nat \<times> nat \<Rightarrow> nat \<times> nat \<times> nat \<Rightarrow> int" where
  "example_compare (a, b, c) (a', b', c') =
     (if a < a' then - 1 else if a' < a then 1
      else if b < b' then - 1 else if b' < b then 1
      else if c < c' then - 1 else if c' < c then 1
      else 0)"

definition example_semverValid :: "string \<Rightarrow> string option" where
  "example_semverValid s =
     map_option (\<lambda>(a, b, c). show_nat a @ ''.'' @ show_nat b @ ''.'' @ show_nat c) (example_parse s)"

definition example_semverRcompare :: "string option \<Rightarrow> string option \<Rightarrow> int" where
  "example_semverRcompare x y =
     (case (Option.bind x example_parse, Option.bind y example_parse) of
        (Some p, Some q) \<Rightarrow> example_compare q p
      | _ \<Rightarrow> 0)"

definition example_semverLt :: "string option \<Rightarrow> string \<Rightarrow> bool" where
  "example_semverLt x y =
     (case (Option.bind x example_parse, example_parse y) of
        (Some p, Some q) \<Rightarrow> example_compare p q < 0
      | _ \<Rightarrow> False)"

text \<open>
  A repository with three releases and two tags that are no versions; the ref of the new tag
  exists already, and no release is attached to it.
\<close>

definition example_tags :: "tag_item list" where
  "example_tags =
     [\<lparr>name = ''latest'', tag_commit = ''c3''\<rparr>,
      \<lparr>name = ''v1.0.0'', tag_commit = ''c1''\<rparr>,
      \<lparr>name = ''v1.1.0'', tag_commit = ''c3''\<rparr>,
      \<lparr>name = ''v1.0.1'', tag_commit = ''c2''\<rparr>,
      \<lparr>name = ''v1.0'', tag_commit = ''c1''\<rparr>]"

definition example_client :: github_client where
  "example_client =
     \<lparr>git_createTag = (\<lambda>p. Inr ''7a1''),
      git_createRef = (\<lambda>p. Inl (RequestError 422 ''Reference already exists'')),
      git_updateRef = (\<lambda>p. Inr ()),
      git_getRef = (\<lambda>p. Inr ()),
      repos_getReleaseByTag = (\<lambda>p. Inl (RequestError 404 ''Not Found'')),
      repos_deleteRelease = (\<lambda>p. Inr ()),
      repos_createRelease = (\<lambda>p. Inr ''https://uploads.example/1/assets''),
      repos_compareCommits = (\<lambda>p. Inr [\<lparr>item_sha = ''c3'', item_message = ''fix: typo''\<rparr>]),
      repos_listPullRequestsAssociatedWithCommit = (\<lambda>p. Inr []),
      paginate_listTags = (\<lambda>p. Inr example_tags)\<rparr>"

definition example_inputs :: "string \<Rightarrow> string" where
  "example_inputs n =
     (if n = ''repo_token'' then ''t0ken''
      else if n = ''automatic_release_tag'' then ''v1.1.0''
      else if n = ''is_tag_static'' \<or> n = ''draft'' \<or> n = ''prerelease'' then ''false''
      else if n = ''files'' then ''*.jar''
      else [])"

definition example_JSON_parse :: "string \<Rightarrow> error + bool" where
  "example_JSON_parse s =
     (if s = ''true'' then Inr True
      else if s = ''false'' then Inr False
      else Inl (Error ''Unexpected token''))"

definition example_deps :: "github_client \<Rightarrow> unit deps" where
  "example_deps client =
     \<lparr>getInput = (\<lambda>n required. Inr (example_inputs n)),
      JSON_parse = example_JSON_parse,
      JSON_stringify_context = (\<lambda>c. ''{}''),
      JSON_stringify_commit = (\<lambda>c. ''{}''),
      JSON_stringify_parsed = (\<lambda>c. ''{}''),
      new_Context = Inr \<lparr>context_ref = ''refs/heads/main'', context_sha = ''c3'',
                         context_repo = Inr \<lparr>owner = ''octo'', repo = ''demo''\<rparr>\<rparr>,
      new_GitHub = (\<lambda>token. Inr client),
      semverValid = example_semverValid,
      semverRcompare = example_semverRcompare,
      semverLt = example_semverLt,
      commitParser = (\<lambda>m opts. Inr \<lparr>pc_header = Some m, pc_body = None, pc_footer = None,
                                      pc_merge = None, pc_extra = None\<rparr>),
      getChangelogOptions = Inr (),
      dumpGitHubEventPayload = Inr (),
      isBreakingChange = (\<lambda>b f. Inr False),
      generateChangelogFromParsedCommits = (\<lambda>cs. Inr ''## Changes''),
      parseGitTag = (\<lambda>r. Inr (if take 10 r = ''refs/tags/'' then drop 10 r
                               else if take 5 r = ''tags/'' then drop 5 r else [])),
      appendFullChangelogLink = (\<lambda>changelog ow re prev cur. Inr changelog),
      uploadReleaseArtifacts = (\<lambda>client url paths. Inr ()),
      globby = example_globby,
      readFileSync = (\<lambda>p. Inr ''x''),
      sha256 = example_sha256,
      basename = example_basename\<rparr>"

text \<open>
  The same platform with the release lookup answering with a server error; with release
  creation unavailable; and a repository whose previous tag's ref is gone and whose comparison
  fails.
\<close>

definition outage_client :: github_client where
  "outage_client =
     example_client\<lparr>repos_getReleaseByTag := (\<lambda>p. Inl (RequestError 500 ''Internal Server Error''))\<rparr>"

definition release_down_client :: github_client where
  "release_down_client =
     example_client\<lparr>repos_createRelease := (\<lambda>p. Inl (RequestError 503 ''Service Unavailable''))\<rparr>"

definition first_release_client :: github_client where
  "first_release_client =
     example_client\<lparr>git_getRef := (\<lambda>p. Inl (RequestError 404 ''Not Found'')),
                     repos_compareCommits := (\<lambda>p. Inl (RequestError 404 ''Not Found''))\<rparr>"

text \<open>The same platform with a release attached to the tag already (its id is 42).\<close>

definition republish_client :: github_client where
  "republish_client = example_client\<lparr>repos_getReleaseByTag := (\<lambda>p. Inr 42)\<rparr>"

section \<open>Sequencing laws\<close>

lemma bind_simps:
  "bind (Inl e, out) f = (Inl e, out)"
  "bind (Inr x, out) f = (fst (f x), out @ snd (f x))"
  by (simp_all add: bind_def split: prod.splits)

lemma raised_simps [simp]:
  "raised (Inl e) = [Thrown e]"
  "raised (Inr x) = []"
  by (simp_all add: raised_def)

lemma bind_lift_Inr [simp]: "bind (lift (Inr x)) f = f x"
  by (simp add: bind_def lift_def split: prod.splits)

lemma bind_lift_Inl [simp]: "bind (lift (Inl e)) f = (Inl e, [Thrown e])"
  by (simp add: bind_def lift_def)

lemma bind_ret [simp]: "bind (ret x) f = f x"
  by (simp add: bind_def ret_def split: prod.splits)

lemma seq_emit [simp]: "seq (emit ev) m = (fst m, ev # snd m)"
  by (simp add: seq_def bind_def emit_def split: prod.splits)

section \<open>Artifact paths: the insertion-ordered set\<close>

lemma foldl_Set_add_distinct: "distinct acc \<Longrightarrow> distinct (foldl Set_add acc xs)"
  by (induction xs arbitrary: acc) (auto simp: Set_add_def)

lemma foldl_Set_add_set: "set (foldl Set_add acc xs) = set acc \<union> set xs"
  by (induction xs arbitrary: acc) (auto simp: Set_add_def)

lemma foldl_Set_add_fresh:
  "distinct xs \<Longrightarrow> set acc \<inter> set xs = {} \<Longrightarrow> foldl Set_add acc xs = acc @ xs"
  by (induction xs arbitrary: acc) (auto simp: Set_add_def)

lemma new_Set_distinct: "distinct (new_Set xs)"
  by (simp add: new_Set_def foldl_Set_add_distinct)

lemma new_Set_set: "set (new_Set xs) = set xs"
  by (simp add: new_Set_def foldl_Set_add_set)

lemma new_Set_id: "distinct xs \<Longrightarrow> new_Set xs = xs"
  by (simp add: new_Set_def foldl_Set_add_fresh)

lemma new_Set_append_left: "new_Set (new_Set xs @ ys) = new_Set (xs @ ys)"
proof -
  have "new_Set (new_Set xs @ ys) = foldl Set_add (new_Set (new_Set xs)) ys"
    by (simp add: new_Set_def)
  also have "new_Set (new_Set xs) = new_Set xs"
    by (simp add: new_Set_id new_Set_distinct)
  finally show ?thesis by (simp add: new_Set_def)
qed

lemma new_Set_snoc: "new_Set (xs @ [x]) = Set_add (new_Set xs) x"
  by (simp add: new_Set_def)

lemma first_index_append_mem: "x \<in> set xs \<Longrightarrow> first_index (xs @ ys) x = first_index xs x"
  by (simp add: first_index_def takeWhile_append1)

lemma first_index_less: "x \<in> set xs \<Longrightarrow> first_index xs x < length xs"
  unfolding first_index_def by (induction xs) auto

lemma first_index_snoc_fresh: "x \<notin> set xs \<Longrightarrow> first_index (xs @ [x]) x = length xs"
  unfolding first_index_def by (induction xs) auto

lemma new_Set_first_seen:
  "sorted_wrt (\<lambda>p q. first_index xs p < first_index xs q) (new_Set xs)"
proof (induction xs rule: rev_induct)
  case Nil
  then show ?case by (simp add: new_Set_def)
next
  case (snoc x xs)
  have mono: "sorted_wrt (\<lambda>p q. first_index (xs @ [x]) p < first_index (xs @ [x]) q) (new_Set xs)"
    using snoc
    by (rule sorted_wrt_mono_rel [rotated]) (simp add: first_index_append_mem new_Set_set)
  show ?case
  proof (cases "x \<in> set xs")
    case True
    then show ?thesis using mono by (simp add: new_Set_snoc Set_add_def new_Set_set)
  next
    case False
    then show ?thesis using mono
      by (auto simp: new_Set_snoc Set_add_def new_Set_set sorted_wrt_append
          first_index_snoc_fresh first_index_append_mem first_index_less)
  qed
qed

text \<open>
  The loop, when every pattern expands: the accumulator ends as the insertion-ordered set of
  everything matched, and one error line is logged per pattern that matched nothing.
\<close>

lemma getPaths_loop_ok:
  assumes "\<forall>f\<in>set globs. expand f = Inr (matches f)" "distinct paths"
  shows "getPaths_loop expand globs paths =
     (Inr (new_Set (paths @ concat (map matches globs))),
      map (\<lambda>f. LogError (f @ '' doesn't match any files'')) (filter (\<lambda>f. matches f = []) globs))"
  using assms
proof (induction globs arbitrary: paths)
  case Nil
  then show ?case by (simp add: ret_def new_Set_id)
next
  case (Cons f globs)
  then show ?case
    by (simp add: new_Set_append_left new_Set_distinct)
qed

text \<open>
  C6: for every list of glob patterns (each of which the glob library can expand, to
  \<open>matches f\<close>), \<open>getPaths\<close> returns normally; what it returns has no path twice and
  holds exactly the paths matched by some pattern; a pattern that matches no file contributes
  nothing and is reported by one \<open>core.error\<close> line, which does not fail the run.
\<close>

theorem getPaths_deduplicated_union:
  assumes "\<forall>f\<in>set globs. expand f = Inr (matches f)"
  shows "\<exists>paths. fst (getPaths expand globs) = Inr paths \<and> distinct paths \<and>
           set paths = (\<Union>f\<in>set globs. set (matches f)) \<and>
           filter is_LogError (snd (getPaths expand globs)) =
             map (\<lambda>f. LogError (f @ '' doesn't match any files'')) (filter (\<lambda>f. matches f = []) globs)"
proof -
  have loop: "getPaths_loop expand globs [] =
     (Inr (new_Set (concat (map matches globs))),
      map (\<lambda>f. LogError (f @ '' doesn't match any files'')) (filter (\<lambda>f. matches f = []) globs))"
    using getPaths_loop_ok [OF assms, of "[]"] by simp
  have res: "fst (getPaths expand globs) = Inr (new_Set (concat (map matches globs)))"
    by (simp add: getPaths_def loop bind_simps ret_def)
  have evs: "filter is_LogError (snd (getPaths expand globs)) =
      map (\<lambda>f. LogError (f @ '' doesn't match any files'')) (filter (\<lambda>f. matches f = []) globs)"
    by (simp add: getPaths_def loop bind_simps ret_def is_LogError_def filter_map comp_def)
  show ?thesis
    using res evs by (simp add: new_Set_distinct new_Set_set)
qed

theorem getPaths_deduplicated_union_witness:
  "example_globby ''*.jar'' = Inr [''a.jar'', ''b.jar''] \<and>
   example_globby ''*.zip'' = Inr [] \<and>
   example_globby ''a.*'' = Inr [''a.txt'', ''a.jar''] \<and>
   fst (getPaths example_globby [''*.jar'', ''*.zip'', ''a.*'']) = Inr [''a.jar'', ''b.jar'', ''a.txt''] \<and>
   filter is_LogError (snd (getPaths example_globby [''*.jar'', ''*.zip'', ''a.*''])) =
     [LogError ''*.zip doesn't match any files'']"
proof -
  have h: "\<forall>f\<in>set [''*.jar'', ''*.zip'', ''a.*'']. example_globby f = Inr (example_matches f)"
    by (simp add: example_globby_def example_matches_def)
  have r: "fst (getPaths example_globby [''*.jar'', ''*.zip'', ''a.*'']) = Inr [''a.jar'', ''b.jar'', ''a.txt'']"
    by (simp add: getPaths_def example_globby_def new_Set_def Set_add_def bind_simps ret_def)
  have g: "example_globby ''*.jar'' = Inr [''a.jar'', ''b.jar'']" "example_globby ''*.zip'' = Inr []"
    "example_globby ''a.*'' = Inr [''a.txt'', ''a.jar'']"
    by (simp_all add: example_globby_def)
  from getPaths_deduplicated_union [OF h] r g show ?thesis
    by (simp add: example_matches_def)
qed

text \<open>
  C10: the list returned by \<open>getPaths\<close> keeps first-seen order: with the matches of all
  patterns written one after the other in input order, a path stands before another in the
  result exactly as its first match stands before the other's first match.
\<close>

theorem getPaths_first_seen_order:
  assumes "\<forall>f\<in>set globs. expand f = Inr (matches f)"
  shows "\<exists>paths. fst (getPaths expand globs) = Inr paths \<and>
           set paths = set (concat (map matches globs)) \<and>
           sorted_wrt (\<lambda>p q. first_index (concat (map matches globs)) p
                             < first_index (concat (map matches globs)) q) paths"
proof -
  have "getPaths_loop expand globs [] =
     (Inr (new_Set (concat (map matches globs))),
      map (\<lambda>f. LogError (f @ '' doesn't match any files'')) (filter (\<lambda>f. matches f = []) globs))"
    using getPaths_loop_ok [OF assms, of "[]"] by simp
  then have "fst (getPaths expand globs) = Inr (new_Set (concat (map matches globs)))"
    by (simp add: getPaths_def bind_simps ret_def)
  then show ?thesis
    using new_Set_first_seen [of "concat (map matches globs)"] new_Set_set [of "concat (map matches globs)"]
    by simp
qed

theorem getPaths_first_seen_order_witness:
  "example_globby ''a.*'' = Inr (example_matches ''a.*'') \<and>
   example_globby ''*.jar'' = Inr (example_matches ''*.jar'') \<and>
   concat (map example_matches [''a.*'', ''*.jar'']) = [''a.txt'', ''a.jar'', ''a.jar'', ''b.jar''] \<and>
   (\<exists>paths. fst (getPaths example_globby [''a.*'', ''*.jar'']) = Inr paths \<and>
      paths = [''a.txt'', ''a.jar'', ''b.jar''] \<and>
      sorted_wrt (\<lambda>p q. first_index (concat (map example_matches [''a.*'', ''*.jar''])) p
                        < first_index (concat (map example_matches [''a.*'', ''*.jar''])) q) paths)"
proof -
  have h: "\<forall>f\<in>set [''a.*'', ''*.jar'']. example_globby f = Inr (example_matches f)"
    by (simp add: example_globby_def example_matches_def)
  have r: "fst (getPaths example_globby [''a.*'', ''*.jar'']) = Inr [''a.txt'', ''a.jar'', ''b.jar'']"
    by (simp add: getPaths_def example_globby_def new_Set_def Set_add_def bind_simps ret_def)
  have m: "concat (map example_matches [''a.*'', ''*.jar'']) = [''a.txt'', ''a.jar'', ''a.jar'', ''b.jar'']"
    by (simp add: example_matches_def)
  from getPaths_first_seen_order [OF h] r h m show ?thesis
    by simp
qed

section \<open>Artifact checksums\<close>

lemma getChecksums_loop_ok:
  assumes "\<forall>p\<in>set paths. readFile p = Inr (content p)"
  shows "getChecksums_loop readFile digest baseName paths markdown =
     (Inr (markdown @ concat (map (\<lambda>p. digest (content p) @ ''  '' @ baseName p @ [CHR 0x0A]) paths)), [])"
  using assms
  by (induction paths arbitrary: markdown) (simp_all add: ret_def)

lemma getChecksums_loop_fail:
  assumes "\<forall>p\<in>set ok. readFile p = Inr (content p)" "readFile bad = Inl e"
  shows "getChecksums_loop readFile digest baseName (ok @ bad # rest) markdown = (Inl e, [Thrown e])"
  using assms
  by (induction ok arbitrary: markdown) simp_all

text \<open>
  C2: for the empty list of paths the claim asks for the empty string. The guard that should
  return it compares the length with \<open>< 0\<close>, which no list satisfies, so the function goes
  on and returns the heading and an empty fenced block.
\<close>

theorem getChecksums_empty:
  "getChecksums readFile digest baseName [] =
     (Inr (''## Checksums'' @ [CHR 0x0A] @ ''sha256'' @ [CHR 0x0A] @ ''```'' @ [CHR 0x0A] @ ''```''),
      [StartGroup ''Generating checksums for artifacts'', EndGroup])"
  by (simp add: getChecksums_def bind_simps ret_def)

text \<open>
  C5: for every non-empty list of readable paths (\<open>content p\<close> the bytes of \<open>p\<close>),
  \<open>getChecksums\<close> returns the heading \<open>## Checksums\<close>, the line \<open>sha256\<close>, an opening
  fence, one line \<open>digest, two spaces, basename\<close> per path in order, and the closing fence.
  The digest on a line is the digest function applied to that file's bytes and to nothing
  else, so equal contents give equal digests.
\<close>

theorem getChecksums_renders:
  assumes "paths \<noteq> []" "\<forall>p\<in>set paths. readFile p = Inr (content p)"
  shows "fst (getChecksums readFile digest baseName paths) =
     Inr (''## Checksums'' @ [CHR 0x0A] @ ''sha256'' @ [CHR 0x0A] @ ''```'' @ [CHR 0x0A] @
          concat (map (\<lambda>p. digest (content p) @ ''  '' @ baseName p @ [CHR 0x0A]) paths) @
          ''```'')"
  using getChecksums_loop_ok [OF assms(2)]
  by (simp add: getChecksums_def bind_simps ret_def)

theorem getChecksums_renders_witness:
  "example_readFileSync ''out/a.txt'' = Inr ''x'' \<and>
   example_readFileSync ''out/b.txt'' = Inr ''x'' \<and>
   fst (getChecksums example_readFileSync example_sha256 example_basename [''out/a.txt'', ''out/b.txt'']) =
     Inr (''## Checksums'' @ [CHR 0x0A] @ ''sha256'' @ [CHR 0x0A] @ ''```'' @ [CHR 0x0A] @
          ''2d711642b726b04401627ca9fbac32f5c8530fb1903cc4db02258717921a4881  a.txt'' @ [CHR 0x0A] @
          ''2d711642b726b04401627ca9fbac32f5c8530fb1903cc4db02258717921a4881  b.txt'' @ [CHR 0x0A] @
          ''```'')"
proof -
  have h: "\<forall>p\<in>set [''out/a.txt'', ''out/b.txt'']. example_readFileSync p = Inr ((\<lambda>_. ''x'') p)"
    by (simp add: example_readFileSync_def)
  from getChecksums_renders [of "[''out/a.txt'', ''out/b.txt'']" example_readFileSync "\<lambda>_. ''x''"
      example_sha256 example_basename, OF _ h] h
  show ?thesis
    by (simp add: example_sha256_def example_basename_def)
qed

text \<open>
  C9: if some path of the list cannot be read, \<open>getChecksums\<close> throws the error of the
  read that failed (the first one in list order) and returns no markdown: the exception is the
  last event of the function, nothing in it catches it, and no checksum block with a missing
  line is produced.
\<close>

theorem getChecksums_unreadable:
  assumes "\<exists>p\<in>set paths. isl (readFile p)"
  shows "\<exists>p\<in>set paths. \<exists>e. readFile p = Inl e \<and>
           getChecksums readFile digest baseName paths =
             (Inl e, [StartGroup ''Generating checksums for artifacts'', Thrown e])"
proof -
  from assms obtain ok bad rest where
    split: "paths = ok @ bad # rest" and bad: "isl (readFile bad)"
    and ok: "\<forall>p\<in>set ok. \<not> isl (readFile p)"
    by (auto simp: split_list_first_prop_iff)
  from bad obtain e where e: "readFile bad = Inl e"
    by (cases "readFile bad") auto
  from ok have ok': "\<forall>p\<in>set ok. readFile p = Inr (projr (readFile p))"
    by simp
  have "getChecksums_loop readFile digest baseName paths markdown = (Inl e, [Thrown e])" for markdown
    unfolding split by (rule getChecksums_loop_fail [OF ok' e])
  then have "getChecksums readFile digest baseName paths =
      (Inl e, [StartGroup ''Generating checksums for artifacts'', Thrown e])"
    by (simp add: getChecksums_def bind_simps)
  with e split show ?thesis by auto
qed

theorem getChecksums_unreadable_witness:
  "(\<exists>p\<in>set [''out/a.txt'', ''out/gone.txt'']. isl (example_readFileSync p)) \<and>
   getChecksums example_readFileSync example_sha256 example_basename [''out/a.txt'', ''out/gone.txt''] =
     (Inl (Error ''ENOENT: no such file or directory, open out/gone.txt''),
      [StartGroup ''Generating checksums for artifacts'',
       Thrown (Error ''ENOENT: no such file or directory, open out/gone.txt'')])"
proof -
  have h: "\<exists>p\<in>set [''out/a.txt'', ''out/gone.txt'']. isl (example_readFileSync p)"
    by (simp add: example_readFileSync_def)
  have a: "example_readFileSync ''out/a.txt'' = Inr ''x''"
    by (simp add: example_readFileSync_def)
  have g: "example_readFileSync ''out/gone.txt'' =
      Inl (Error ''ENOENT: no such file or directory, open out/gone.txt'')"
    by (simp add: example_readFileSync_def)
  from getChecksums_unreadable [OF h, of example_sha256 example_basename] h
  show ?thesis
    by (auto simp: a g)
qed

section \<open>The tag resolver\<close>


lemma set_insert_cmp: "set (insert_cmp cmp x ys) = insert x (set ys)"
  by (induction ys) auto

lemma set_Array_sort: "set (Array_sort cmp xs) = set xs"
  unfolding Array_sort_def by (induction xs) (simp_all add: set_insert_cmp)

lemma sorted_insert_cmp:
  assumes total: "\<And>a b. a \<in> S \<Longrightarrow> b \<in> S \<Longrightarrow> cmp a b \<le> 0 \<or> cmp b a \<le> 0"
    and trans: "\<And>a b c. a \<in> S \<Longrightarrow> b \<in> S \<Longrightarrow> c \<in> S \<Longrightarrow> cmp a b \<le> 0 \<Longrightarrow> cmp b c \<le> 0 \<Longrightarrow> cmp a c \<le> 0"
    and mem: "x \<in> S" "set ys \<subseteq> S"
    and sorted: "sorted_wrt (\<lambda>a b. cmp a b \<le> 0) ys"
  shows "sorted_wrt (\<lambda>a b. cmp a b \<le> 0) (insert_cmp cmp x ys)"
  using mem sorted
proof (induction ys)
  case Nil
  then show ?case by simp
next
  case (Cons y ys)
  from Cons.prems have y: "y \<in> S" and ys: "set ys \<subseteq> S" by simp_all
  show ?case
  proof (cases "cmp x y \<le> 0")
    case True
    have "cmp x z \<le> 0" if "z \<in> set ys" for z
    proof -
      from Cons.prems(3) that have "cmp y z \<le> 0" by simp
      moreover from that ys have "z \<in> S" by blast
      ultimately show ?thesis using trans [OF \<open>x \<in> S\<close> y _ True] by blast
    qed
    with True Cons.prems(3) show ?thesis by simp
  next
    case False
    with total [OF \<open>x \<in> S\<close> y] have yx: "cmp y x \<le> 0" by simp
    have "sorted_wrt (\<lambda>a b. cmp a b \<le> 0) (insert_cmp cmp x ys)"
      using Cons.IH [OF \<open>x \<in> S\<close> ys] Cons.prems(3) by simp
    with False yx Cons.prems(3) show ?thesis
      by (simp add: set_insert_cmp)
  qed
qed

lemma sorted_Array_sort:
  assumes total: "\<And>a b. a \<in> S \<Longrightarrow> b \<in> S \<Longrightarrow> cmp a b \<le> 0 \<or> cmp b a \<le> 0"
    and trans: "\<And>a b c. a \<in> S \<Longrightarrow> b \<in> S \<Longrightarrow> c \<in> S \<Longrightarrow> cmp a b \<le> 0 \<Longrightarrow> cmp b c \<le> 0 \<Longrightarrow> cmp a c \<le> 0"
    and mem: "set xs \<subseteq> S"
  shows "sorted_wrt (\<lambda>a b. cmp a b \<le> 0) (Array_sort cmp xs)"
  using mem
proof (induction xs)
  case Nil
  then show ?case by (simp add: Array_sort_def)
next
  case (Cons x xs)
  then have s: "sorted_wrt (\<lambda>a b. cmp a b \<le> 0) (Array_sort cmp xs)"
    and x: "x \<in> S" and xs: "set (Array_sort cmp xs) \<subseteq> S"
    by (simp_all add: set_Array_sort)
  have "sorted_wrt (\<lambda>a b. cmp a b \<le> 0) (insert_cmp cmp x (Array_sort cmp xs))"
    using total trans x xs s by (rule sorted_insert_cmp)
  then show ?case by (simp add: Array_sort_def)
qed

lemma searchForPreviousReleaseTag_loop_none:
  "\<forall>t\<in>set xs. \<not> lt (semverTag t) c \<Longrightarrow> searchForPreviousReleaseTag_loop lt c xs prev = prev"
  by (induction xs) auto

lemma searchForPreviousReleaseTag_loop_first:
  "\<forall>t\<in>set pre. \<not> lt (semverTag t) c \<Longrightarrow> lt (semverTag x) c \<Longrightarrow>
   searchForPreviousReleaseTag_loop lt c (pre @ x # post) prev = name x"
  by (induction pre) auto









lemma with_semverTag_simps [simp]:
  "name (with_semverTag deps t) = name t"
  "semverTag (with_semverTag deps t) = semverValid deps (name t)"
  by (simp_all add: with_semverTag_def tag_item.defs sv_tag.defs)

lemma map_io_emit_ret:
  "map_io (\<lambda>t. seq (emit (e t)) (ret (g t))) xs = (Inr (map g xs), map e xs)"
  by (induction xs) (simp_all add: ret_def seq_def emit_def bind_simps)


lemma searchForPreviousReleaseTag_eq:
  assumes "semverValid deps c = Some cv" "cv \<noteq> []"
    and "paginate_listTags client tagInfo = Inr tags"
  shows "searchForPreviousReleaseTag deps client c tagInfo =
     (Inr (searchForPreviousReleaseTag_loop (semverLt deps) c (sorted_tags deps tags) []),
      Call (ListTags tagInfo) # map (\<lambda>t. LogDebug (''Currently processing tag '' @ name t)) tags)"
proof -
  have m: "map_io (\<lambda>t. seq (emit (LogDebug (''Currently processing tag '' @ name t)))
                    (ret (tag_item.extend t (sv_tag.fields (semverValid deps (name t)))))) xs
        = (Inr (map (with_semverTag deps) xs),
           map (\<lambda>t. LogDebug (''Currently processing tag '' @ name t)) xs)" for xs
    using map_io_emit_ret [of "\<lambda>t. LogDebug (''Currently processing tag '' @ name t)" "with_semverTag deps" xs]
    unfolding with_semverTag_def .
  show ?thesis
    unfolding searchForPreviousReleaseTag_def Let_def m
    by (simp add: assms truthy_or_null_def truthy_def client_paginate_listTags_def request_def
        bind_simps ret_def sorted_tags_def)
qed

lemma set_sorted_tags:
  "set (sorted_tags deps tags) = {with_semverTag deps t | t. t \<in> set tags \<and> semverValid deps (name t) \<noteq> None}"
  by (auto simp: sorted_tags_def set_Array_sort)

lemma listed_versions_mem:
  "t \<in> set tags \<Longrightarrow> semverValid deps (name t) = Some v \<Longrightarrow> v \<in> set (listed_versions deps tags)"
  by (force simp: listed_versions_def List.map_filter_def)

lemma semver_consistent_total:
  assumes "semver_consistent deps vs" "a \<in> set vs" "b \<in> set vs"
  shows "semverRcompare deps (Some a) (Some b) \<le> 0 \<or> semverRcompare deps (Some b) (Some a) \<le> 0"
proof -
  from assms(1) have "\<forall>a\<in>set vs. \<forall>b\<in>set vs.
      semverRcompare deps (Some a) (Some b) \<le> 0 \<or> semverRcompare deps (Some b) (Some a) \<le> 0"
    unfolding semver_consistent_def by fast
  with assms(2,3) show ?thesis by fast
qed

lemma semver_consistent_lt:
  assumes "semver_consistent deps vs" "a \<in> set vs" "b \<in> set vs"
  shows "semverLt deps (Some a) b \<longleftrightarrow> 0 < semverRcompare deps (Some a) (Some b)"
proof -
  from assms(1) have "\<forall>a\<in>set vs. \<forall>b\<in>set vs.
      semverLt deps (Some a) b \<longleftrightarrow> 0 < semverRcompare deps (Some a) (Some b)"
    unfolding semver_consistent_def by fast
  with assms(2,3) show ?thesis by fast
qed

lemma semver_consistent_trans:
  assumes "semver_consistent deps vs" "a \<in> set vs" "b \<in> set vs" "c \<in> set vs"
    and "semverRcompare deps (Some a) (Some b) \<le> 0" "semverRcompare deps (Some b) (Some c) \<le> 0"
  shows "semverRcompare deps (Some a) (Some c) \<le> 0"
proof -
  from assms(1) have "\<forall>a\<in>set vs. \<forall>b\<in>set vs. \<forall>c\<in>set vs.
      semverRcompare deps (Some a) (Some b) \<le> 0 \<and> semverRcompare deps (Some b) (Some c) \<le> 0 \<longrightarrow>
      semverRcompare deps (Some a) (Some c) \<le> 0"
    unfolding semver_consistent_def by fast
  with assms(2-6) show ?thesis by fast
qed

lemma sorted_sorted_tags:
  assumes "semver_consistent deps (listed_versions deps tags)"
  shows "sorted_wrt (\<lambda>a b. semverRcompare deps (semverTag a) (semverTag b) \<le> 0) (sorted_tags deps tags)"
  unfolding sorted_tags_def
proof (rule sorted_Array_sort [where S = "{x. \<exists>v\<in>set (listed_versions deps tags). semverTag x = Some v}"])
  show "set (filter (\<lambda>t. semverTag t \<noteq> None) (map (with_semverTag deps) tags))
          \<subseteq> {x. \<exists>v\<in>set (listed_versions deps tags). semverTag x = Some v}"
    by (auto simp: listed_versions_mem)
next
  fix a b :: sv_tag
  assume "a \<in> {x. \<exists>v\<in>set (listed_versions deps tags). semverTag x = Some v}"
    "b \<in> {x. \<exists>v\<in>set (listed_versions deps tags). semverTag x = Some v}"
  then obtain va vb where v: "va \<in> set (listed_versions deps tags)" "semverTag a = Some va"
    "vb \<in> set (listed_versions deps tags)" "semverTag b = Some vb" by auto
  show "semverRcompare deps (semverTag a) (semverTag b) \<le> 0 \<or>
      semverRcompare deps (semverTag b) (semverTag a) \<le> 0"
    using semver_consistent_total [OF assms v(1) v(3)] v(2) v(4) by simp
next
  fix a b c :: sv_tag
  assume "a \<in> {x. \<exists>v\<in>set (listed_versions deps tags). semverTag x = Some v}"
    "b \<in> {x. \<exists>v\<in>set (listed_versions deps tags). semverTag x = Some v}"
    "c \<in> {x. \<exists>v\<in>set (listed_versions deps tags). semverTag x = Some v}"
  then obtain va vb vc where v: "va \<in> set (listed_versions deps tags)" "semverTag a = Some va"
    "vb \<in> set (listed_versions deps tags)" "semverTag b = Some vb"
    "vc \<in> set (listed_versions deps tags)" "semverTag c = Some vc" by auto
  assume "semverRcompare deps (semverTag a) (semverTag b) \<le> 0"
    "semverRcompare deps (semverTag b) (semverTag c) \<le> 0"
  then show "semverRcompare deps (semverTag a) (semverTag c) \<le> 0"
    using semver_consistent_trans [OF assms v(1) v(3) v(5)] v(2) v(4) v(6) by simp
qed



lemma older_iff:
  "older deps c t \<longleftrightarrow> (\<exists>v. semverValid deps (name t) = Some v \<and> semverLt deps (Some v) c)"
  by (simp add: older_def split: option.splits)

lemma older_with_semverTag:
  "semverValid deps (name t) \<noteq> None \<Longrightarrow>
   semverLt deps (semverValid deps (name t)) c = older deps c t"
  by (auto simp: older_def split: option.splits)

lemma previous_tag_is_maximum:
  assumes valid: "semverValid deps c = Some cv" "cv \<noteq> []"
    and listing: "paginate_listTags client tagInfo = Inr tags"
    and consistent: "semver_consistent deps (listed_versions deps tags)"
  shows "\<exists>r. fst (searchForPreviousReleaseTag deps client c tagInfo) = Inr r \<and>
           (if \<exists>t\<in>set tags. older deps c t
            then \<exists>t\<in>set tags. r = name t \<and> older deps c t \<and>
                   (\<forall>u\<in>set tags. older deps c u \<longrightarrow> \<not> version_lt deps t u)
            else r = [])"
proof -
  let ?S = "sorted_tags deps tags"
  let ?r = "searchForPreviousReleaseTag_loop (semverLt deps) c ?S []"
  have res: "fst (searchForPreviousReleaseTag deps client c tagInfo) = Inr ?r"
    by (simp add: searchForPreviousReleaseTag_eq [OF valid listing])
  have sorted: "sorted_wrt (\<lambda>a b. semverRcompare deps (semverTag a) (semverTag b) \<le> 0) ?S"
    by (rule sorted_sorted_tags [OF consistent])
  show ?thesis
  proof (cases "\<exists>t\<in>set tags. older deps c t")
    case False
    then have "\<forall>x\<in>set ?S. \<not> semverLt deps (semverTag x) c"
      by (auto simp: set_sorted_tags older_iff)
    then have "?r = []"
      using searchForPreviousReleaseTag_loop_none [of ?S "semverLt deps" c "[]"] by simp
    with False res show ?thesis by simp
  next
    case True
    then obtain t0 where t0: "t0 \<in> set tags" "older deps c t0" by blast
    then have v0: "semverValid deps (name t0) \<noteq> None" by (auto simp: older_iff)
    have "with_semverTag deps t0 \<in> set ?S"
      unfolding set_sorted_tags using t0(1) v0 by blast
    moreover have "semverLt deps (semverTag (with_semverTag deps t0)) c"
      using t0(2) by (simp add: older_with_semverTag [OF v0])
    ultimately have "\<exists>x\<in>set ?S. semverLt deps (semverTag x) c" by blast
    then obtain pre x post where split: "?S = pre @ x # post"
      and x: "semverLt deps (semverTag x) c"
      and pre: "\<forall>p\<in>set pre. \<not> semverLt deps (semverTag p) c"
      by (auto simp: split_list_first_prop_iff)
    have r: "?r = name x"
      unfolding split
      using searchForPreviousReleaseTag_loop_first [of pre "semverLt deps" c x post "[]"] pre x
      by simp
    have "x \<in> set ?S" by (simp add: split)
    then obtain t where t: "t \<in> set tags" "semverValid deps (name t) \<noteq> None" "x = with_semverTag deps t"
      by (auto simp: set_sorted_tags)
    then obtain tv where tv: "semverValid deps (name t) = Some tv" by auto
    have tv_mem: "tv \<in> set (listed_versions deps tags)"
      by (rule listed_versions_mem [OF t(1) tv])
    have t_older: "older deps c t"
      using x t(3) by (simp add: older_with_semverTag [OF t(2)])
    have max: "\<not> version_lt deps t u" if u: "u \<in> set tags" "older deps c u" for u
    proof -
      from u obtain uv where uv: "semverValid deps (name u) = Some uv" by (auto simp: older_iff)
      have uv_mem: "uv \<in> set (listed_versions deps tags)"
        by (rule listed_versions_mem [OF u(1) uv])
      have lt_iff: "semverLt deps (Some tv) uv \<longleftrightarrow> 0 < semverRcompare deps (Some tv) (Some uv)"
        by (rule semver_consistent_lt [OF consistent tv_mem uv_mem])
      let ?y = "with_semverTag deps u"
      have uv': "semverValid deps (name u) \<noteq> None" using uv by simp
      have y_mem: "?y \<in> set ?S" unfolding set_sorted_tags using u(1) uv' by blast
      have y_lt: "semverLt deps (semverTag ?y) c"
        using u(2) by (simp add: older_with_semverTag [OF uv'])
      have "semverRcompare deps (Some tv) (Some uv) \<le> 0"
      proof -
        from y_mem split have "?y \<in> set pre \<or> ?y = x \<or> ?y \<in> set post" by auto
        then consider "?y \<in> set pre" | "?y = x" | "?y \<in> set post" by blast
        then show ?thesis
        proof cases
          case 1
          with pre y_lt show ?thesis by blast
        next
          case 2
          then have "semverTag ?y = semverTag x" by simp
          then have "uv = tv" using uv tv t(3) by simp
          with semver_consistent_total [OF consistent tv_mem tv_mem] show ?thesis by simp
        next
          case 3
          from sorted split
          have "\<forall>z\<in>set post. semverRcompare deps (semverTag x) (semverTag z) \<le> 0"
            by (simp add: sorted_wrt_append)
          with 3 have "semverRcompare deps (semverTag x) (semverTag ?y) \<le> 0"
            by blast
          then show ?thesis using t(3) tv uv by simp
        qed
      qed
      with lt_iff show ?thesis by (simp add: version_lt_def tv uv)
    qed
    from t(1) t_older max r t(3) have "\<exists>t\<in>set tags. ?r = name t \<and> older deps c t \<and>
         (\<forall>u\<in>set tags. older deps c u \<longrightarrow> \<not> version_lt deps t u)"
      by auto
    with True res show ?thesis by simp
  qed
qed

lemma sorted_tags_filter:
  "sorted_tags deps (filter (\<lambda>t. semverValid deps (name t) \<noteq> None) tags) = sorted_tags deps tags"
  by (simp add: sorted_tags_def filter_map comp_def)


lemma previous_tag_ignores_invalid:
  assumes valid: "semverValid deps c = Some cv" "cv \<noteq> []"
    and listing: "paginate_listTags client tagInfo = Inr tags"
    and listing': "paginate_listTags client' tagInfo' =
                     Inr (filter (\<lambda>t. semverValid deps (name t) \<noteq> None) tags)"
  shows "fst (searchForPreviousReleaseTag deps client' c tagInfo') =
         fst (searchForPreviousReleaseTag deps client c tagInfo)"
  by (simp only: searchForPreviousReleaseTag_eq [OF valid listing]
      searchForPreviousReleaseTag_eq [OF valid listing'] sorted_tags_filter fst_conv)

text \<open>
  C1: let the candidate \<open>c\<close> be valid semantic-version text (\<open>semver.valid\<close> returns
  its version, a string that is not empty), let the tag listing answer \<open>tags\<close>, and let
  the \<open>semver\<close> library order the versions of the listed tags consistently. Then \<open>searchForPreviousReleaseTag\<close> returns: if some listed tag is a
  version older than \<open>c\<close>, the name of such a tag than which no other such tag is newer (a
  maximum among the listed versions below \<open>c\<close>); otherwise the empty string. Tags that are
  no versions are never returned and do not matter: the listing with them removed gives the
  same result.
\<close>

theorem searchForPreviousReleaseTag_maximum:
  assumes valid: "semverValid deps c = Some cv" "cv \<noteq> []"
    and listing: "paginate_listTags client tagInfo = Inr tags"
    and consistent: "semver_consistent deps (listed_versions deps tags)"
  shows "(\<exists>r. fst (searchForPreviousReleaseTag deps client c tagInfo) = Inr r \<and>
           (if \<exists>t\<in>set tags. older deps c t
            then \<exists>t\<in>set tags. r = name t \<and> older deps c t \<and>
                   (\<forall>u\<in>set tags. older deps c u \<longrightarrow> \<not> version_lt deps t u)
            else r = [])) \<and>
         (\<forall>client' tagInfo'.
            paginate_listTags client' tagInfo' =
              Inr (filter (\<lambda>t. semverValid deps (name t) \<noteq> None) tags) \<longrightarrow>
            fst (searchForPreviousReleaseTag deps client' c tagInfo') =
            fst (searchForPreviousReleaseTag deps client c tagInfo))"
  using previous_tag_is_maximum [OF valid listing consistent]
    previous_tag_ignores_invalid [OF valid listing]
  by blast

theorem searchForPreviousReleaseTag_maximum_witness:
  "semverValid (example_deps example_client) ''v1.1.0'' = Some ''1.1.0'' \<and>
   paginate_listTags example_client \<lparr>owner = ''octo'', repo = ''demo''\<rparr> = Inr example_tags \<and>
   semver_consistent (example_deps example_client)
     (listed_versions (example_deps example_client) example_tags) \<and>
   fst (searchForPreviousReleaseTag (example_deps example_client) example_client ''v1.1.0''
          \<lparr>owner = ''octo'', repo = ''demo''\<rparr>) = Inr ''v1.0.1'' \<and>
   (\<exists>t\<in>set example_tags. name t = ''v1.0.1'' \<and>
      older (example_deps example_client) ''v1.1.0'' t \<and>
      (\<forall>u\<in>set example_tags. older (example_deps example_client) ''v1.1.0'' u \<longrightarrow>
         \<not> version_lt (example_deps example_client) t u))"
proof -
  let ?deps = "example_deps example_client"
  let ?info = "\<lparr>owner = ''octo'', repo = ''demo''\<rparr>"
  have h1: "semverValid ?deps ''v1.1.0'' = Some ''1.1.0''" by code_simp
  have h2: "''1.1.0'' \<noteq> []" by simp
  have h3: "paginate_listTags example_client ?info = Inr example_tags"
    by (simp add: example_client_def)
  have h4: "semver_consistent ?deps (listed_versions ?deps example_tags)" by code_simp
  have some: "\<exists>t\<in>set example_tags. older ?deps ''v1.1.0'' t" by code_simp
  have res: "fst (searchForPreviousReleaseTag ?deps example_client ''v1.1.0'' ?info) = Inr ''v1.0.1''"
    by code_simp
  from searchForPreviousReleaseTag_maximum [OF h1 h2 h3 h4] some res
  have "\<exists>t\<in>set example_tags. ''v1.0.1'' = name t \<and> older ?deps ''v1.1.0'' t \<and>
          (\<forall>u\<in>set example_tags. older ?deps ''v1.1.0'' u \<longrightarrow> \<not> version_lt ?deps t u)"
    by simp
  then have "\<exists>t\<in>set example_tags. name t = ''v1.0.1'' \<and> older ?deps ''v1.1.0'' t \<and>
          (\<forall>u\<in>set example_tags. older ?deps ''v1.1.0'' u \<longrightarrow> \<not> version_lt ?deps t u)"
    by metis
  with h1 h3 h4 res show ?thesis by blast
qed

text \<open>
  C8: when the candidate tag does not parse as semantic-version text (\<open>semver.valid\<close>
  returns \<open>null\<close>), \<open>searchForPreviousReleaseTag\<close> throws, whatever the client and the
  rest of the library are, and the exception is its only event: no tag listing was requested.
\<close>

theorem searchForPreviousReleaseTag_invalid_version:
  assumes "semverValid deps c = None"
  shows "searchForPreviousReleaseTag deps client c tagInfo =
     (Inl (Error ''Cannot find previous release tag because the tag does not appear to conform to semantic versioning.''),
      [Thrown (Error ''Cannot find previous release tag because the tag does not appear to conform to semantic versioning.'')])"
  by (simp add: searchForPreviousReleaseTag_def assms truthy_or_null_def throw_def)

theorem searchForPreviousReleaseTag_invalid_version_witness:
  "semverValid (example_deps example_client) ''latest'' = None \<and>
   searchForPreviousReleaseTag (example_deps example_client) example_client ''latest''
       \<lparr>owner = ''octo'', repo = ''demo''\<rparr> =
     (Inl (Error ''Cannot find previous release tag because the tag does not appear to conform to semantic versioning.''),
      [Thrown (Error ''Cannot find previous release tag because the tag does not appear to conform to semantic versioning.'')])"
proof -
  have h: "semverValid (example_deps example_client) ''latest'' = None" by code_simp
  from searchForPreviousReleaseTag_invalid_version [OF h] h show ?thesis by simp
qed

section \<open>Calls of a run\<close>

lemma catch_simps:
  "catch (Inl e, out) h = (fst (h e), out @ snd (h e))"
  "catch (Inr x, out) h = (Inr x, out)"
  by (simp_all add: catch_def split: prod.splits)

lemmas io_defs = ret_def throw_def lift_def emit_def request_def seq_def

lemma calls_simps [simp]:
  "calls [] = []"
  "calls (Call c # evs) = c # calls evs"
  "calls (StartGroup s # evs) = calls evs"
  "calls (EndGroup # evs) = calls evs"
  "calls (LogDebug s # evs) = calls evs"
  "calls (LogInfo s # evs) = calls evs"
  "calls (LogWarning s # evs) = calls evs"
  "calls (LogError s # evs) = calls evs"
  "calls (SetFailed s # evs) = calls evs"
  "calls (ExportVariable s v # evs) = calls evs"
  "calls (SetOutput s v # evs) = calls evs"
  "calls (Thrown e # evs) = calls evs"
  by (simp_all add: calls_def)

lemma calls_append [simp]: "calls (xs @ ys) = calls xs @ calls ys"
  by (simp add: calls_def List.map_filter_def)

lemma calls_raised [simp]: "calls (raised r) = []"
  by (cases r) simp_all

lemma fst_snd_bind:
  "fst (bind m f) = (case fst m of Inl e \<Rightarrow> Inl e | Inr x \<Rightarrow> fst (f x))"
  "snd (bind m f) = (case fst m of Inl e \<Rightarrow> snd m | Inr x \<Rightarrow> snd m @ snd (f x))"
  by (cases m; cases "fst m"; simp add: bind_def split: prod.splits)+

lemma fst_snd_catch:
  "fst (catch m h) = (case fst m of Inl e \<Rightarrow> fst (h e) | Inr x \<Rightarrow> Inr x)"
  "snd (catch m h) = (case fst m of Inl e \<Rightarrow> snd m @ snd (h e) | Inr x \<Rightarrow> snd m)"
  by (cases m; cases "fst m"; simp add: catch_def split: prod.splits)+

lemma fst_snd_seq:
  "fst (seq m n) = (case fst m of Inl e \<Rightarrow> Inl e | Inr x \<Rightarrow> fst n)"
  "snd (seq m n) = (case fst m of Inl e \<Rightarrow> snd m | Inr x \<Rightarrow> snd m @ snd n)"
  by (simp_all add: seq_def fst_snd_bind)

lemma all_calls_ret [all_calls_intros]: "all_calls P (ret x)"
  by (simp add: all_calls_def ret_def)

lemma all_calls_throw [all_calls_intros]: "all_calls P (throw e)"
  by (simp add: all_calls_def throw_def)

lemma all_calls_lift [all_calls_intros]: "all_calls P (lift r)"
  by (simp add: all_calls_def lift_def)

lemma all_calls_emit [all_calls_intros]: "calls [ev] = [] \<Longrightarrow> all_calls P (emit ev)"
  by (simp add: all_calls_def emit_def)

lemma all_calls_request [all_calls_intros]: "P c \<Longrightarrow> all_calls P (request c r)"
  by (simp add: all_calls_def request_def)

lemma all_calls_bind [all_calls_intros]:
  "all_calls P m \<Longrightarrow> (\<And>x. all_calls P (f x)) \<Longrightarrow> all_calls P (bind m f)"
  by (simp add: all_calls_def fst_snd_bind split: sum.splits)

lemma all_calls_seq [all_calls_intros]:
  "all_calls P m \<Longrightarrow> all_calls P n \<Longrightarrow> all_calls P (seq m n)"
  by (simp add: seq_def all_calls_bind)

lemma all_calls_catch [all_calls_intros]:
  "all_calls P m \<Longrightarrow> (\<And>e. all_calls P (h e)) \<Longrightarrow> all_calls P (catch m h)"
  by (simp add: all_calls_def fst_snd_catch split: sum.splits)

lemma all_calls_if [all_calls_intros]:
  "(b \<Longrightarrow> all_calls P m) \<Longrightarrow> (\<not> b \<Longrightarrow> all_calls P n) \<Longrightarrow> all_calls P (if b then m else n)"
  by simp

lemma all_calls_case_prod [all_calls_intros]:
  "(\<And>a b. all_calls P (f a b)) \<Longrightarrow> all_calls P (case p of (a, b) \<Rightarrow> f a b)"
  by (cases p) simp

lemma all_calls_map_io [all_calls_intros]:
  "(\<And>x. all_calls P (f x)) \<Longrightarrow> all_calls P (map_io f xs)"
proof (induction xs)
  case Nil
  show ?case unfolding map_io.simps by (rule all_calls_ret)
next
  case (Cons x xs)
  show ?case unfolding map_io.simps by (intro all_calls_intros Cons)
qed

lemma all_calls_getPaths_loop: "all_calls P (getPaths_loop g fs ps)"
proof (induction fs arbitrary: ps)
  case Nil
  show ?case unfolding getPaths_loop.simps by (rule all_calls_ret)
next
  case (Cons f fs)
  show ?case unfolding getPaths_loop.simps by (intro all_calls_intros Cons) simp_all
qed

lemma all_calls_getPaths [all_calls_intros]: "all_calls P (getPaths g fs)"
  unfolding getPaths_def by (intro all_calls_intros all_calls_getPaths_loop) simp_all

lemma all_calls_getChecksums_loop: "all_calls P (getChecksums_loop r s b ps md)"
proof (induction ps arbitrary: md)
  case Nil
  show ?case unfolding getChecksums_loop.simps by (rule all_calls_ret)
next
  case (Cons p ps)
  show ?case unfolding getChecksums_loop.simps Let_def by (intro all_calls_intros Cons)
qed

lemma all_calls_getChecksums [all_calls_intros]: "all_calls P (getChecksums r s b ps)"
  unfolding getChecksums_def Let_def by (intro all_calls_intros all_calls_getChecksums_loop) simp_all

lemma all_calls_getAndValidateArgs [all_calls_intros]: "all_calls P (getAndValidateArgs deps)"
  unfolding getAndValidateArgs_def Let_def by (intro all_calls_intros)

lemma all_calls_searchForPreviousReleaseTag [all_calls_intros]:
  "(\<And>p. P (ListTags p)) \<Longrightarrow> all_calls P (searchForPreviousReleaseTag deps client c tagInfo)"
  unfolding searchForPreviousReleaseTag_def Let_def client_paginate_listTags_def
  by (intro all_calls_intros) simp_all

lemma all_calls_getCommitsSinceRelease [all_calls_intros]:
  "(\<And>p. P (GetRef p)) \<Longrightarrow> (\<And>p. P (CompareCommits p)) \<Longrightarrow>
   all_calls P (getCommitsSinceRelease deps client tagInfo currentSha)"
  unfolding getCommitsSinceRelease_def Let_def getRef_catch_def
    client_git_getRef_def client_repos_compareCommits_def
  by (intro all_calls_intros) simp_all

lemma all_calls_getChangelog_loop:
  "(\<And>p. P (ListPullRequestsAssociatedWithCommit p)) \<Longrightarrow>
   all_calls P (getChangelog_loop deps client ow re commits parsed)"
proof (induction commits arbitrary: parsed)
  case Nil
  show ?case unfolding getChangelog_loop.simps by (rule all_calls_ret)
next
  case (Cons c commits)
  show ?case
    unfolding getChangelog_loop.simps Let_def client_repos_listPullRequestsAssociatedWithCommit_def
    by (intro all_calls_intros Cons) simp_all
qed

lemma all_calls_getChangelog [all_calls_intros]:
  "(\<And>p. P (ListPullRequestsAssociatedWithCommit p)) \<Longrightarrow>
   all_calls P (getChangelog deps client ow re commits)"
  unfolding getChangelog_def
  by (intro all_calls_intros all_calls_getChangelog_loop) simp_all

section \<open>The release publisher\<close>

lemma createReleaseTag_outcome:
  "(fst (createReleaseTag client refInfo annotation),
    calls (snd (createReleaseTag client refInfo annotation))) =
     (case git_createTag client (createTag_request refInfo annotation) of
        Inl e \<Rightarrow> (Inl e, [CreateTag (createTag_request refInfo annotation)])
      | Inr tag_sha \<Rightarrow>
          (case git_createRef client (createRef_request refInfo tag_sha) of
             Inr _ \<Rightarrow>
               (Inr (), [CreateTag (createTag_request refInfo annotation),
                         CreateRef (createRef_request refInfo tag_sha)])
           | Inl e \<Rightarrow>
               (git_updateRef client (updateRef_request refInfo tag_sha),
                [CreateTag (createTag_request refInfo annotation),
                 CreateRef (createRef_request refInfo tag_sha),
                 UpdateRef (updateRef_request refInfo tag_sha)])))"
proof -
  have R: "refInfo\<lparr>sha := s\<rparr> = createRef_request refInfo s" for s
    by (simp add: createRef_request_def)
  have U: "create_ref_params.extend (createRef_request refInfo s\<lparr>ref := drop 5 (ref (createRef_request refInfo s))\<rparr>)
             (update_ref_params.fields True) = updateRef_request refInfo s" for s
    by (simp add: createRef_request_def updateRef_request_def create_ref_params.defs update_ref_params.defs)
  have P: "\<lparr>owner = owner refInfo, repo = repo refInfo, ct_tag = drop 10 (ref refInfo),
            ct_message = annotation, ct_object = sha refInfo, ct_type = ''commit''\<rparr>
           = createTag_request refInfo annotation"
    by (simp add: createTag_request_def)
  show ?thesis
    unfolding createReleaseTag_def Let_def R U P
      client_git_createTag_def client_git_createRef_def client_git_updateRef_def
    by (cases "git_createTag client (createTag_request refInfo annotation)")
       (auto simp: io_defs bind_simps catch_simps fst_snd_bind fst_snd_catch
          split: sum.splits)
qed

lemma deletePreviousGitHubRelease_outcome:
  "fst (deletePreviousGitHubRelease client releaseInfo) = Inr () \<and>
   calls (snd (deletePreviousGitHubRelease client releaseInfo)) =
     (case repos_getReleaseByTag client releaseInfo of
        Inl e \<Rightarrow> [GetReleaseByTag releaseInfo]
      | Inr resp_id \<Rightarrow>
          [GetReleaseByTag releaseInfo,
           DeleteRelease \<lparr>owner = owner releaseInfo, repo = repo releaseInfo, release_id = resp_id\<rparr>])"
  unfolding deletePreviousGitHubRelease_def
    client_repos_getReleaseByTag_def client_repos_deleteRelease_def
  by (cases "repos_getReleaseByTag client releaseInfo")
     (auto simp: io_defs bind_simps catch_simps fst_snd_bind fst_snd_catch split: sum.splits)

lemma generateNewGitHubRelease_outcome:
  "fst (generateNewGitHubRelease client releaseInfo) = repos_createRelease client releaseInfo \<and>
   calls (snd (generateNewGitHubRelease client releaseInfo)) = [CreateRelease releaseInfo]"
  unfolding generateNewGitHubRelease_def client_repos_createRelease_def
  by (cases "repos_createRelease client releaseInfo")
     (auto simp: io_defs bind_simps fst_snd_bind split: sum.splits)

lemma publisher_calls_append [simp]:
  "publisher_calls (xs @ ys) = publisher_calls xs @ publisher_calls ys"
  by (simp add: publisher_calls_def)

lemma publisher_calls_silent:
  "all_calls (\<lambda>c. method_of c = M_other) m \<Longrightarrow> publisher_calls (snd m) = []"
  by (simp add: all_calls_def publisher_calls_def list_all_iff filter_empty_conv)

lemma publisher_run_failed:
  "isl (fst m) \<Longrightarrow> publisher_calls (snd m) = [] \<Longrightarrow> publisher_run m"
  by (simp add: publisher_run_def publisher_runs_def)

lemma publisher_run_throw [publisher_run_intros]: "publisher_run (throw e)"
  by (rule publisher_run_failed) (simp_all add: throw_def publisher_calls_def)

lemma publisher_run_bind [publisher_run_intros]:
  assumes "all_calls (\<lambda>c. method_of c = M_other) m"
    and "\<And>x. fst m = Inr x \<Longrightarrow> publisher_run (f x)"
  shows "publisher_run (bind m f)"
proof (cases "fst m")
  case (Inl e)
  then show ?thesis
    using publisher_calls_silent [OF assms(1)]
    by (intro publisher_run_failed) (simp_all add: fst_snd_bind)
next
  case (Inr x)
  with assms(2) have "publisher_run (f x)" by simp
  then show ?thesis
    using Inr publisher_calls_silent [OF assms(1)]
    by (simp add: publisher_run_def fst_snd_bind)
qed

lemma publisher_run_seq_emit [publisher_run_intros]:
  assumes "calls [ev] = []" "publisher_run n"
  shows "publisher_run (seq (emit ev) n)"
  unfolding seq_def
  by (rule publisher_run_bind) (simp_all add: assms all_calls_emit)

lemma publisher_run_if [publisher_run_intros]:
  "(b \<Longrightarrow> publisher_run m) \<Longrightarrow> (\<not> b \<Longrightarrow> publisher_run n) \<Longrightarrow>
   publisher_run (if b then m else n)"
  by simp

lemma publisher_run_catch_report:
  assumes "publisher_run m"
  shows "publisher_run (catch m (\<lambda>error. seq (emit (SetFailed (message error))) (throw error)))"
proof (cases "fst m")
  case (Inl e)
  with assms show ?thesis
    by (simp add: publisher_run_def fst_snd_catch throw_def publisher_calls_def)
next
  case (Inr x)
  with assms show ?thesis
    by (simp add: publisher_run_def fst_snd_catch)
qed

lemma createReleaseTag_methods:
  "isl (fst (createReleaseTag client refInfo annotation)) \<and>
     publisher_calls (snd (createReleaseTag client refInfo annotation)) = [M_createTag] \<or>
   fst (createReleaseTag client refInfo annotation) = Inr () \<and>
     publisher_calls (snd (createReleaseTag client refInfo annotation)) = [M_createTag, M_createRef] \<or>
   publisher_calls (snd (createReleaseTag client refInfo annotation)) =
     [M_createTag, M_createRef, M_updateRef]"
  using createReleaseTag_outcome [of client refInfo annotation]
  by (auto simp: publisher_calls_def split: sum.splits)

lemma deletePreviousGitHubRelease_methods:
  "fst (deletePreviousGitHubRelease client releaseInfo) = Inr ()"
  "publisher_calls (snd (deletePreviousGitHubRelease client releaseInfo)) = [M_getReleaseByTag] \<or>
   publisher_calls (snd (deletePreviousGitHubRelease client releaseInfo)) =
     [M_getReleaseByTag, M_deleteRelease]"
  using deletePreviousGitHubRelease_outcome [of client releaseInfo]
  by (auto simp: publisher_calls_def split: sum.splits)

lemma generateNewGitHubRelease_methods:
  "publisher_calls (snd (generateNewGitHubRelease client releaseInfo)) = [M_createRelease]"
  using generateNewGitHubRelease_outcome [of client releaseInfo]
  by (simp add: publisher_calls_def)

lemma publisher_run_publish:
  assumes "truthy t"
    and silent: "\<And>url. all_calls (\<lambda>c. method_of c = M_other) (f url)"
  shows "publisher_run
           (seq (if truthy t
                 then seq (createReleaseTag client refInfo annotation)
                        (deletePreviousGitHubRelease client releaseInfo)
                 else ret ())
              (bind (generateNewGitHubRelease client newRelease) f))"
proof -
  let ?tag = "createReleaseTag client refInfo annotation"
  let ?del = "deletePreviousGitHubRelease client releaseInfo"
  let ?gen = "generateNewGitHubRelease client newRelease"
  have rest: "publisher_calls (snd (bind ?gen f)) = [M_createRelease]"
    by (simp add: fst_snd_bind generateNewGitHubRelease_methods publisher_calls_silent [OF silent]
        split: sum.splits)
  have del: "fst ?del = Inr ()" by (rule deletePreviousGitHubRelease_methods)
  from createReleaseTag_methods [of client refInfo annotation]
  consider (tag_failed) "isl (fst ?tag)" "publisher_calls (snd ?tag) = [M_createTag]"
    | (created) "fst ?tag = Inr ()" "publisher_calls (snd ?tag) = [M_createTag, M_createRef]"
    | (updated) "publisher_calls (snd ?tag) = [M_createTag, M_createRef, M_updateRef]"
    by blast
  then show ?thesis
  proof cases
    case tag_failed
    then show ?thesis
      using assms(1)
      by (auto simp: publisher_run_def publisher_runs_def publisher_sequences_def fst_snd_seq split: sum.splits)
  next
    case created
    then show ?thesis
      using assms(1) del rest deletePreviousGitHubRelease_methods(2) [of client releaseInfo]
      by (auto simp: publisher_run_def publisher_runs_def publisher_sequences_def fst_snd_seq split: sum.splits)
  next
    case updated
    show ?thesis
    proof (cases "fst ?tag")
      case (Inl e)
      with updated show ?thesis
        using assms(1)
        by (auto simp: publisher_run_def publisher_runs_def publisher_sequences_def fst_snd_seq split: sum.splits)
    next
      case (Inr u)
      with updated show ?thesis
        using assms(1) del rest deletePreviousGitHubRelease_methods(2) [of client releaseInfo]
        by (auto simp: publisher_run_def publisher_runs_def publisher_sequences_def fst_snd_seq split: sum.splits)
    qed
  qed
qed

lemma getAndValidateArgs_tag:
  assumes "fst (getAndValidateArgs deps) = Inr args"
  shows "getInput deps ''automatic_release_tag'' False = Inr (automaticReleaseTag args)"
  using assms unfolding getAndValidateArgs_def Let_def
  by (auto simp: fst_snd_bind lift_def ret_def split: sum.splits if_splits)

lemma main_publisher_run:
  assumes "getInput deps ''automatic_release_tag'' False = Inr t" "t \<noteq> []"
  shows "publisher_run (main deps)"
  unfolding main_def Let_def
proof (rule publisher_run_catch_report, intro publisher_run_intros publisher_run_publish)
  fix args
  assume "fst (getAndValidateArgs deps) = Inr args"
  from getAndValidateArgs_tag [OF this] assms
  show "truthy (automaticReleaseTag args)" by (simp add: truthy_def)
qed ((intro all_calls_intros; simp) | simp)+

section \<open>Propagation of errors\<close>

lemma propagates_silent: "all_calls recovered m \<Longrightarrow> propagates fl m"
  by (auto simp: propagates_def all_calls_def list_all_iff)

lemma propagates_ret [propagates_intros]: "propagates fl (ret x)"
  by (simp add: propagates_def ret_def)

lemma propagates_throw [propagates_intros]: "propagates fl (throw e)"
  by (simp add: propagates_def throw_def)

lemma propagates_lift [propagates_intros]: "propagates fl (lift r)"
  by (simp add: propagates_def lift_def)

lemma propagates_emit [propagates_intros]: "calls [ev] = [] \<Longrightarrow> propagates fl (emit ev)"
  by (simp add: propagates_def emit_def)

lemma propagates_request [propagates_intros]:
  "fl c = (case r of Inl e \<Rightarrow> Some e | Inr _ \<Rightarrow> None) \<Longrightarrow> propagates fl (request c r)"
  by (auto simp: propagates_def request_def split: sum.splits)

lemma propagates_bind [propagates_intros]:
  assumes "propagates fl m" "\<And>x. fst m = Inr x \<Longrightarrow> propagates fl (f x)"
  shows "propagates fl (bind m f)"
proof (cases "fst m")
  case (Inl e)
  with assms(1) show ?thesis by (simp add: propagates_def fst_snd_bind)
next
  case (Inr x)
  with assms(1) assms(2) [OF Inr] show ?thesis
    by (auto simp: propagates_def fst_snd_bind)
qed

lemma propagates_seq [propagates_intros]:
  "propagates fl m \<Longrightarrow> propagates fl n \<Longrightarrow> propagates fl (seq m n)"
  unfolding seq_def by (rule propagates_bind)

lemma propagates_if [propagates_intros]:
  "(b \<Longrightarrow> propagates fl m) \<Longrightarrow> (\<not> b \<Longrightarrow> propagates fl n) \<Longrightarrow>
   propagates fl (if b then m else n)"
  by simp

lemma propagates_catch_recovered:
  assumes "all_calls recovered m" "\<And>e. propagates fl (h e)"
  shows "propagates fl (catch m h)"
proof (cases "fst m")
  case (Inl e)
  with assms(1) assms(2) [of e] show ?thesis
    by (auto simp: propagates_def fst_snd_catch all_calls_def list_all_iff)
next
  case (Inr x)
  with assms(1) show ?thesis
    by (auto simp: propagates_def fst_snd_catch all_calls_def list_all_iff)
qed

lemma propagates_catch_report:
  assumes "propagates fl m"
  shows "propagates fl (catch m (\<lambda>error. seq (emit (SetFailed (message error))) (throw error)))"
proof (cases "fst m")
  case (Inl e)
  with assms show ?thesis
    by (simp add: propagates_def fst_snd_catch throw_def)
next
  case (Inr x)
  with assms show ?thesis
    by (simp add: propagates_def fst_snd_catch)
qed

lemma catch_report_last:
  assumes "fst (catch m (\<lambda>error. seq (emit (SetFailed (message error))) (throw error))) = Inl e"
  shows "fst m = Inl e \<and>
         snd (catch m (\<lambda>error. seq (emit (SetFailed (message error))) (throw error))) =
           snd m @ [SetFailed (message e), Thrown e]"
  using assms by (cases "fst m") (simp_all add: fst_snd_catch throw_def)

lemma propagates_createReleaseTag [propagates_intros]:
  "propagates (failure deps client) (createReleaseTag client refInfo annotation)"
  unfolding createReleaseTag_def Let_def client_git_createTag_def client_git_createRef_def
    client_git_updateRef_def
  by (intro propagates_intros propagates_catch_recovered all_calls_intros; simp)

lemma propagates_deletePreviousGitHubRelease [propagates_intros]:
  "propagates fl (deletePreviousGitHubRelease client releaseInfo)"
  unfolding deletePreviousGitHubRelease_def client_repos_getReleaseByTag_def
    client_repos_deleteRelease_def
  by (intro propagates_intros propagates_catch_recovered all_calls_intros; simp)

lemma propagates_generateNewGitHubRelease [propagates_intros]:
  "propagates (failure deps client) (generateNewGitHubRelease client releaseInfo)"
  unfolding generateNewGitHubRelease_def client_repos_createRelease_def
  by (intro propagates_intros; simp)

lemma propagates_map_io [propagates_intros]:
  "(\<And>x. propagates fl (f x)) \<Longrightarrow> propagates fl (map_io f xs)"
proof (induction xs)
  case Nil
  show ?case unfolding map_io.simps by (rule propagates_ret)
next
  case (Cons x xs)
  show ?case unfolding map_io.simps by (intro propagates_intros Cons)
qed

lemma propagates_searchForPreviousReleaseTag [propagates_intros]:
  "propagates (failure deps client) (searchForPreviousReleaseTag deps client c tagInfo)"
  unfolding searchForPreviousReleaseTag_def Let_def client_paginate_listTags_def
  by (intro propagates_intros; simp)

lemma propagates_getCommitsSinceRelease [propagates_intros]:
  "propagates fl (getCommitsSinceRelease deps client tagInfo currentSha)"
  by (rule propagates_silent) (intro all_calls_intros; simp)

lemma propagates_getChangelog_loop:
  "propagates (failure deps client) (getChangelog_loop deps client ow re commits parsed)"
proof (induction commits arbitrary: parsed)
  case Nil
  show ?case unfolding getChangelog_loop.simps by (rule propagates_ret)
next
  case (Cons c commits)
  show ?case
    unfolding getChangelog_loop.simps Let_def client_repos_listPullRequestsAssociatedWithCommit_def
    by (intro propagates_intros Cons; simp)
qed

lemma propagates_getChangelog [propagates_intros]:
  "propagates (failure deps client) (getChangelog deps client ow re commits)"
  unfolding getChangelog_def
  by (intro propagates_intros propagates_getChangelog_loop; simp)

lemma propagates_getPaths [propagates_intros]: "propagates fl (getPaths g fs)"
  by (rule propagates_silent) (rule all_calls_getPaths)

lemma propagates_getChecksums [propagates_intros]: "propagates fl (getChecksums r s b ps)"
  by (rule propagates_silent) (rule all_calls_getChecksums)

lemma propagates_getAndValidateArgs [propagates_intros]: "propagates fl (getAndValidateArgs deps)"
  by (rule propagates_silent) (rule all_calls_getAndValidateArgs)

lemma getAndValidateArgs_token:
  assumes "fst (getAndValidateArgs deps) = Inr args"
  shows "getInput deps ''repo_token'' True = Inr (repoToken args)"
  using assms unfolding getAndValidateArgs_def Let_def
  by (auto simp: fst_snd_bind lift_def ret_def split: sum.splits if_splits)

lemma main_propagates:
  assumes "getInput deps ''repo_token'' True = Inr token" "new_GitHub deps token = Inr client"
  shows "propagates (failure deps client) (main deps)"
  unfolding main_def Let_def
  apply (rule propagates_catch_report)
  apply (rule propagates_bind, rule propagates_getAndValidateArgs)
  apply (rule propagates_bind, rule propagates_lift)
  apply (rule propagates_bind, rule propagates_lift)
  subgoal premises prems for args context' client'
  proof -
    have "repoToken args = token"
      using getAndValidateArgs_token [OF prems(1)] assms(1) by simp
    with prems(3) assms(2) have eq: "client' = client" by (simp add: lift_def)
    show ?thesis
      unfolding eq
      by (intro propagates_intros; simp)
  qed
  done

section \<open>Raised errors are caught locally or reported\<close>

lemma settled_append: "settled xs \<Longrightarrow> settled ys \<Longrightarrow> settled (xs @ ys)"
  by (induction xs rule: settled.induct) (auto split: list.splits)

lemma settled_caught:
  "settled tr \<Longrightarrow> is_recovery_log ev \<Longrightarrow> settled (ev # rest) \<Longrightarrow>
   settled (tr @ Thrown e # ev # rest)"
  by (rule settled_append) simp_all

lemma is_recovery_log_not_Thrown [simp]: "\<not> is_recovery_log (Thrown e)"
  by (simp add: is_recovery_log_def)

lemma settled_recovery_Cons: "is_recovery_log ev \<Longrightarrow> settled (ev # evs) = settled evs"
  by (cases ev) simp_all

lemma errors_handled_ret [errors_handled_intros]: "errors_handled (ret x)"
  by (simp add: errors_handled_def ret_def)

lemma errors_handled_throw [errors_handled_intros]: "errors_handled (throw e)"
  by (simp add: errors_handled_def throw_def)

lemma errors_handled_lift [errors_handled_intros]: "errors_handled (lift r)"
  by (cases r) (simp_all add: errors_handled_def lift_def)

lemma errors_handled_emit [errors_handled_intros]: "settled [ev] \<Longrightarrow> errors_handled (emit ev)"
  by (simp add: errors_handled_def emit_def)

lemma errors_handled_request [errors_handled_intros]: "errors_handled (request c r)"
proof (cases r)
  case (Inl e)
  have "Call c # [Thrown e] = [Call c] @ [Thrown e] \<and> settled [Call c]" by simp
  with Inl show ?thesis
    unfolding errors_handled_def request_def by (simp del: settled.simps)
next
  case (Inr x)
  then show ?thesis by (simp add: errors_handled_def request_def)
qed

lemma errors_handled_bind [errors_handled_intros]:
  assumes "errors_handled m" "\<And>x. errors_handled (f x)"
  shows "errors_handled (bind m f)"
proof (cases "fst m")
  case (Inl e)
  with assms(1) show ?thesis by (simp add: errors_handled_def fst_snd_bind)
next
  case (Inr x)
  with assms(1) have m: "settled (snd m)" by (simp add: errors_handled_def)
  show ?thesis
  proof (cases "fst (f x)")
    case (Inl e)
    with assms(2) [of x] obtain tr where tr: "snd (f x) = tr @ [Thrown e]" "settled tr"
      by (auto simp: errors_handled_def)
    have "snd (bind m f) = (snd m @ tr) @ [Thrown e] \<and> settled (snd m @ tr)"
      using Inr tr m by (simp add: fst_snd_bind settled_append)
    with Inr Inl show ?thesis
      unfolding errors_handled_def by (simp add: fst_snd_bind)
  next
    case (Inr y)
    with assms(2) [of x] have "settled (snd (f x))" by (simp add: errors_handled_def)
    with \<open>fst m = Inr x\<close> Inr m show ?thesis
      by (simp add: errors_handled_def fst_snd_bind settled_append)
  qed
qed

lemma errors_handled_seq [errors_handled_intros]:
  "errors_handled m \<Longrightarrow> errors_handled n \<Longrightarrow> errors_handled (seq m n)"
  unfolding seq_def by (rule errors_handled_bind)

lemma errors_handled_if [errors_handled_intros]:
  "(b \<Longrightarrow> errors_handled m) \<Longrightarrow> (\<not> b \<Longrightarrow> errors_handled n) \<Longrightarrow>
   errors_handled (if b then m else n)"
  by simp

lemma errors_handled_case_prod [errors_handled_intros]:
  "(\<And>a b. errors_handled (f a b)) \<Longrightarrow> errors_handled (case p of (a, b) \<Rightarrow> f a b)"
  by (cases p) simp

lemma errors_handled_catch:
  assumes m: "errors_handled m"
    and h: "\<And>e. errors_handled (h e)"
    and log: "\<And>e. \<exists>ev rest. snd (h e) = ev # rest \<and> is_recovery_log ev"
  shows "errors_handled (catch m h)"
proof (cases "fst m")
  case (Inr x)
  with m show ?thesis by (simp add: errors_handled_def fst_snd_catch)
next
  case (Inl e)
  with m obtain tr where tr: "snd m = tr @ [Thrown e]" "settled tr"
    by (auto simp: errors_handled_def)
  from log [of e] obtain ev rest where ev: "snd (h e) = ev # rest" "is_recovery_log ev"
    by blast
  show ?thesis
  proof (cases "fst (h e)")
    case (Inr y)
    with h [of e] have "settled (snd (h e))" by (simp add: errors_handled_def)
    with ev have "settled (ev # rest)" by simp
    with tr ev have "settled (snd m @ snd (h e))"
      using settled_caught [of tr ev rest e] by simp
    with Inl Inr show ?thesis by (simp add: errors_handled_def fst_snd_catch)
  next
    case (Inl e')
    with h [of e] obtain tr' where tr': "snd (h e) = tr' @ [Thrown e']" "settled tr'"
      by (auto simp: errors_handled_def)
    from ev tr' obtain rest' where rest': "tr' = ev # rest'"
      by (cases tr') auto
    with tr' have "settled (ev # rest')" by simp
    with tr ev have s: "settled (tr @ Thrown e # ev # rest')"
      by (intro settled_caught)
    have "snd (catch m h) = (tr @ Thrown e # ev # rest') @ [Thrown e']"
      using \<open>fst m = Inl e\<close> tr tr' rest' by (simp add: fst_snd_catch)
    with s \<open>fst m = Inl e\<close> Inl show ?thesis
      unfolding errors_handled_def by (simp add: fst_snd_catch)
  qed
qed

lemma fst_snd_emit:
  "fst (emit ev) = Inr ()"
  "snd (emit ev) = [ev]"
  by (simp_all add: emit_def)

lemmas recovery_log_simps = is_recovery_log_def starts_with_def fst_snd_emit

lemma errors_handled_map_io [errors_handled_intros]:
  "(\<And>x. errors_handled (f x)) \<Longrightarrow> errors_handled (map_io f xs)"
proof (induction xs)
  case Nil
  show ?case unfolding map_io.simps by (rule errors_handled_ret)
next
  case (Cons x xs)
  show ?case unfolding map_io.simps by (intro errors_handled_intros Cons)
qed

lemma errors_handled_getPaths_loop: "errors_handled (getPaths_loop g fs ps)"
proof (induction fs arbitrary: ps)
  case Nil
  show ?case unfolding getPaths_loop.simps by (rule errors_handled_ret)
next
  case (Cons f fs)
  show ?case unfolding getPaths_loop.simps by (intro errors_handled_intros Cons) simp_all
qed

lemma errors_handled_getPaths [errors_handled_intros]: "errors_handled (getPaths g fs)"
  unfolding getPaths_def by (intro errors_handled_intros errors_handled_getPaths_loop) simp_all

lemma errors_handled_getChecksums_loop: "errors_handled (getChecksums_loop r s b ps md)"
proof (induction ps arbitrary: md)
  case Nil
  show ?case unfolding getChecksums_loop.simps by (rule errors_handled_ret)
next
  case (Cons p ps)
  show ?case unfolding getChecksums_loop.simps Let_def by (intro errors_handled_intros Cons)
qed

lemma errors_handled_getChecksums [errors_handled_intros]: "errors_handled (getChecksums r s b ps)"
  unfolding getChecksums_def Let_def
  by (intro errors_handled_intros errors_handled_getChecksums_loop) simp_all

lemma errors_handled_getAndValidateArgs [errors_handled_intros]:
  "errors_handled (getAndValidateArgs deps)"
  unfolding getAndValidateArgs_def Let_def by (intro errors_handled_intros)

lemma errors_handled_createReleaseTag [errors_handled_intros]:
  "errors_handled (createReleaseTag client refInfo annotation)"
  unfolding createReleaseTag_def Let_def client_git_createTag_def client_git_createRef_def
    client_git_updateRef_def
  by (intro errors_handled_intros errors_handled_catch; simp add: recovery_log_simps)

lemma errors_handled_deletePreviousGitHubRelease [errors_handled_intros]:
  "errors_handled (deletePreviousGitHubRelease client releaseInfo)"
  unfolding deletePreviousGitHubRelease_def client_repos_getReleaseByTag_def
    client_repos_deleteRelease_def
  by (intro errors_handled_intros errors_handled_catch; simp add: recovery_log_simps)

lemma errors_handled_generateNewGitHubRelease [errors_handled_intros]:
  "errors_handled (generateNewGitHubRelease client releaseInfo)"
  unfolding generateNewGitHubRelease_def client_repos_createRelease_def
  by (intro errors_handled_intros; simp)

lemma errors_handled_searchForPreviousReleaseTag [errors_handled_intros]:
  "errors_handled (searchForPreviousReleaseTag deps client c tagInfo)"
  unfolding searchForPreviousReleaseTag_def Let_def client_paginate_listTags_def
  by (intro errors_handled_intros; simp)

lemma errors_handled_getCommitsSinceRelease [errors_handled_intros]:
  "errors_handled (getCommitsSinceRelease deps client tagInfo currentSha)"
  unfolding getCommitsSinceRelease_def Let_def getRef_catch_def
    client_git_getRef_def client_repos_compareCommits_def
  by (intro errors_handled_intros errors_handled_catch; simp add: recovery_log_simps)

lemma errors_handled_getChangelog_loop:
  "errors_handled (getChangelog_loop deps client ow re commits parsed)"
proof (induction commits arbitrary: parsed)
  case Nil
  show ?case unfolding getChangelog_loop.simps by (rule errors_handled_ret)
next
  case (Cons c commits)
  show ?case
    unfolding getChangelog_loop.simps Let_def client_repos_listPullRequestsAssociatedWithCommit_def
    by (intro errors_handled_intros Cons; simp)
qed

lemma errors_handled_getChangelog [errors_handled_intros]:
  "errors_handled (getChangelog deps client ow re commits)"
  unfolding getChangelog_def
  by (intro errors_handled_intros errors_handled_getChangelog_loop; simp)

lemma errors_handled_report:
  assumes "errors_handled m"
  shows "case fst (catch m (\<lambda>error. seq (emit (SetFailed (message error))) (throw error))) of
           Inr _ \<Rightarrow>
             settled (snd (catch m (\<lambda>error. seq (emit (SetFailed (message error))) (throw error))))
         | Inl e \<Rightarrow>
             \<exists>tr. settled tr \<and>
               snd (catch m (\<lambda>error. seq (emit (SetFailed (message error))) (throw error))) =
                 tr @ [Thrown e, SetFailed (message e), Thrown e]"
proof (cases "fst m")
  case (Inr x)
  with assms show ?thesis by (simp add: errors_handled_def fst_snd_catch)
next
  case (Inl e)
  with assms obtain tr where "snd m = tr @ [Thrown e]" "settled tr"
    by (auto simp: errors_handled_def)
  with Inl show ?thesis by (simp add: fst_snd_catch throw_def)
qed

lemma main_errors_handled:
  "case fst (main deps) of
     Inr _ \<Rightarrow> settled (snd (main deps))
   | Inl e \<Rightarrow> \<exists>tr. settled tr \<and> snd (main deps) = tr @ [Thrown e, SetFailed (message e), Thrown e]"
  unfolding main_def Let_def
  by (rule errors_handled_report) (intro errors_handled_intros; simp)

section \<open>The commit range\<close>

lemma getCommitsSinceRelease_outcome:
  "fst (getCommitsSinceRelease deps client tagInfo currentSha) =
     Inr (case repos_compareCommits client
                 \<lparr>owner = owner tagInfo, repo = repo tagInfo,
                  base = comparison_base deps client tagInfo, head = currentSha\<rparr> of
            Inl _ \<Rightarrow> []
          | Inr commits \<Rightarrow> commits) \<and>
   calls (snd (getCommitsSinceRelease deps client tagInfo currentSha)) =
     [GetRef tagInfo,
      CompareCommits \<lparr>owner = owner tagInfo, repo = repo tagInfo,
                      base = comparison_base deps client tagInfo, head = currentSha\<rparr>]"
  unfolding getCommitsSinceRelease_def getRef_catch_def comparison_base_def
    client_git_getRef_def client_repos_compareCommits_def
  by (cases "git_getRef client tagInfo"; cases "parseGitTag deps (ref tagInfo)";
      cases "repos_compareCommits client \<lparr>owner = owner tagInfo, repo = repo tagInfo, base = ''HEAD'', head = currentSha\<rparr>";
      cases "repos_compareCommits client \<lparr>owner = owner tagInfo, repo = repo tagInfo, base = projr (parseGitTag deps (ref tagInfo)), head = currentSha\<rparr>")
     (simp_all add: io_defs bind_simps catch_simps resp_data_commits_def)

text \<open>
  C4: \<open>getCommitsSinceRelease\<close> always returns, never throws. It requests the previous
  tag's ref and then one comparison; if the ref request fails the base of the comparison is
  \<open>HEAD\<close>; and what it returns is the commits of the comparison, or the empty list if the
  comparison fails.
\<close>

theorem getCommitsSinceRelease_never_aborts:
  "\<exists>b. calls (snd (getCommitsSinceRelease deps client tagInfo currentSha)) =
          [GetRef tagInfo,
           CompareCommits \<lparr>owner = owner tagInfo, repo = repo tagInfo, base = b, head = currentSha\<rparr>] \<and>
        (isl (git_getRef client tagInfo) \<longrightarrow> b = ''HEAD'') \<and>
        fst (getCommitsSinceRelease deps client tagInfo currentSha) =
          Inr (case repos_compareCommits client
                      \<lparr>owner = owner tagInfo, repo = repo tagInfo, base = b, head = currentSha\<rparr> of
                 Inl _ \<Rightarrow> []
               | Inr commits \<Rightarrow> commits)"
proof -
  have "isl (git_getRef client tagInfo) \<longrightarrow> comparison_base deps client tagInfo = ''HEAD''"
    by (auto simp: comparison_base_def split: sum.splits)
  with getCommitsSinceRelease_outcome [of deps client tagInfo currentSha] show ?thesis
    by blast
qed

theorem getCommitsSinceRelease_never_aborts_witness:
  "isl (git_getRef first_release_client \<lparr>owner = ''octo'', repo = ''demo'', ref = ''tags/''\<rparr>) \<and>
   calls (snd (getCommitsSinceRelease (example_deps first_release_client) first_release_client
                 \<lparr>owner = ''octo'', repo = ''demo'', ref = ''tags/''\<rparr> ''c3'')) =
     [GetRef \<lparr>owner = ''octo'', repo = ''demo'', ref = ''tags/''\<rparr>,
      CompareCommits \<lparr>owner = ''octo'', repo = ''demo'', base = ''HEAD'', head = ''c3''\<rparr>] \<and>
   fst (getCommitsSinceRelease (example_deps first_release_client) first_release_client
          \<lparr>owner = ''octo'', repo = ''demo'', ref = ''tags/''\<rparr> ''c3'') = Inr []"
proof -
  let ?info = "\<lparr>owner = ''octo'', repo = ''demo'', ref = ''tags/''\<rparr>"
  have h: "isl (git_getRef first_release_client ?info)"
    by (simp add: first_release_client_def)
  have c: "repos_compareCommits first_release_client p = Inl (RequestError 404 ''Not Found'')" for p
    by (simp add: first_release_client_def)
  from getCommitsSinceRelease_never_aborts
    [of "example_deps first_release_client" first_release_client ?info "''c3''"] h
  show ?thesis by (auto simp: c)
qed

section \<open>Failed requests\<close>

lemma failures_handled_unfailed:
  "list_all (\<lambda>c. fl c = None) cs \<Longrightarrow> failures_handled fl cs"
  by (induction cs) simp_all

lemma failures_handled_append_unfailed:
  "list_all (\<lambda>c. fl c = None) xs \<Longrightarrow> failures_handled fl (xs @ ys) = failures_handled fl ys"
  by (induction xs) simp_all

lemma after_failure_Nil: "\<not> recovered c \<Longrightarrow> after_failure c []"
  by (cases c) (simp_all add: reattempted_def)

lemma failures_handled_last:
  "list_all (\<lambda>c. fl c = None) (butlast cs) \<Longrightarrow> list_all (\<lambda>c. \<not> recovered c) cs \<Longrightarrow>
   failures_handled fl cs"
proof (induction cs)
  case Nil
  show ?case by simp
next
  case (Cons c cs)
  then show ?case by (cases cs) (simp_all add: after_failure_Nil)
qed

lemma after_failure_append:
  assumes "after_failure c rest" "recovered c" "operation c \<notin> set (map operation later)"
  shows "after_failure c (rest @ later)"
  using assms by (cases c; cases rest) (auto simp: reattempted_def)

lemma failures_handled_append:
  assumes "failures_handled fl xs" "failures_handled fl ys"
    and "\<And>c. c \<in> set xs \<Longrightarrow> fl c \<noteq> None \<Longrightarrow>
           recovered c \<and> operation c \<notin> set (map operation ys)"
  shows "failures_handled fl (xs @ ys)"
  using assms
proof (induction xs)
  case Nil
  then show ?case by simp
next
  case (Cons c xs)
  have rest: "failures_handled fl (xs @ ys)"
    using Cons by simp
  show ?case
  proof (cases "fl c")
    case None
    with rest show ?thesis by simp
  next
    case (Some e)
    with Cons.prems(1) have "after_failure c xs" by simp
    moreover from Cons.prems(3) [of c] Some
    have "recovered c" "operation c \<notin> set (map operation ys)" by simp_all
    ultimately have "after_failure c (xs @ ys)" by (rule after_failure_append)
    with rest show ?thesis by simp
  qed
qed

lemma list_all_butlast: "list_all P xs \<Longrightarrow> list_all P (butlast xs)"
  by (auto simp: list_all_iff dest: in_set_butlastD)

lemma halts_handled: "halts fl m \<Longrightarrow> handled fl m"
  unfolding halts_def handled_def
  by (cases "fst m") (simp_all add: failures_handled_last failures_handled_unfailed)

lemma halts_silent: "calls (snd m) = [] \<Longrightarrow> halts fl m"
  by (simp add: halts_def split: sum.splits)

lemma halts_ret [halts_intros]: "halts fl (ret x)"
  by (rule halts_silent) (simp add: ret_def)

lemma halts_throw [halts_intros]: "halts fl (throw e)"
  by (rule halts_silent) (simp add: throw_def)

lemma halts_lift [halts_intros]: "halts fl (lift r)"
  by (rule halts_silent) (simp add: lift_def)

lemma halts_emit [halts_intros]: "calls [ev] = [] \<Longrightarrow> halts fl (emit ev)"
  by (rule halts_silent) (simp add: emit_def)

lemma halts_request [halts_intros]:
  "fl c = (case r of Inl e \<Rightarrow> Some e | Inr _ \<Rightarrow> None) \<Longrightarrow> \<not> recovered c \<Longrightarrow> halts fl (request c r)"
  by (cases r) (simp_all add: halts_def request_def)

lemma halts_bind [halts_intros]:
  assumes "halts fl m" "\<And>x. halts fl (f x)"
  shows "halts fl (bind m f)"
proof (cases "fst m")
  case (Inl e)
  with assms(1) show ?thesis by (simp add: halts_def fst_snd_bind)
next
  case (Inr x)
  with assms(1) have m: "list_all (\<lambda>c. fl c = None) (calls (snd m))"
    "list_all (\<lambda>c. \<not> recovered c) (calls (snd m))"
    by (simp_all add: halts_def)
  from assms(2) [of x] have f:
    "list_all (\<lambda>c. fl c = None)
        (case fst (f x) of Inl _ \<Rightarrow> butlast (calls (snd (f x))) | Inr _ \<Rightarrow> calls (snd (f x)))"
    "list_all (\<lambda>c. \<not> recovered c) (calls (snd (f x)))"
    by (simp_all add: halts_def)
  show ?thesis
    using Inr m f
    by (cases "fst (f x)") (auto simp: halts_def fst_snd_bind butlast_append list_all_butlast)
qed

lemma halts_seq [halts_intros]: "halts fl m \<Longrightarrow> halts fl n \<Longrightarrow> halts fl (seq m n)"
  unfolding seq_def by (rule halts_bind)

lemma halts_if [halts_intros]:
  "(b \<Longrightarrow> halts fl m) \<Longrightarrow> (\<not> b \<Longrightarrow> halts fl n) \<Longrightarrow> halts fl (if b then m else n)"
  by simp

lemma halts_map_io [halts_intros]: "(\<And>x. halts fl (f x)) \<Longrightarrow> halts fl (map_io f xs)"
proof (induction xs)
  case Nil
  show ?case unfolding map_io.simps by (rule halts_ret)
next
  case (Cons x xs)
  show ?case unfolding map_io.simps by (intro halts_intros Cons)
qed

lemma halts_getAndValidateArgs [halts_intros]: "halts fl (getAndValidateArgs deps)"
  unfolding getAndValidateArgs_def Let_def by (intro halts_intros)

lemma halts_getPaths [halts_intros]: "halts fl (getPaths g fs)"
  using all_calls_getPaths [of "\<lambda>c. False" g fs]
  by (intro halts_silent) (cases "calls (snd (getPaths g fs))", simp_all add: all_calls_def)

lemma halts_getChecksums [halts_intros]: "halts fl (getChecksums r s b ps)"
  using all_calls_getChecksums [of "\<lambda>c. False" r s b ps]
  by (intro halts_silent) (cases "calls (snd (getChecksums r s b ps))", simp_all add: all_calls_def)

lemma halts_searchForPreviousReleaseTag [halts_intros]:
  "halts (failure deps client) (searchForPreviousReleaseTag deps client c tagInfo)"
  unfolding searchForPreviousReleaseTag_def Let_def client_paginate_listTags_def
  by (intro halts_intros; simp)

lemma halts_getChangelog_loop:
  "halts (failure deps client) (getChangelog_loop deps client ow re commits parsed)"
proof (induction commits arbitrary: parsed)
  case Nil
  show ?case unfolding getChangelog_loop.simps by (rule halts_ret)
next
  case (Cons c commits)
  show ?case
    unfolding getChangelog_loop.simps Let_def client_repos_listPullRequestsAssociatedWithCommit_def
    by (intro halts_intros Cons; simp)
qed

lemma halts_getChangelog [halts_intros]:
  "halts (failure deps client) (getChangelog deps client ow re commits)"
  unfolding getChangelog_def
  by (intro halts_intros halts_getChangelog_loop; simp)

lemma halts_generateNewGitHubRelease [halts_intros]:
  "halts (failure deps client) (generateNewGitHubRelease client releaseInfo)"
  unfolding generateNewGitHubRelease_def client_repos_createRelease_def
  by (intro halts_intros; simp)


lemma handled_bind_halts:
  assumes "halts fl m" "\<And>x. fst m = Inr x \<Longrightarrow> handled fl (f x)"
  shows "handled fl (bind m f)"
proof (cases "fst m")
  case (Inl e)
  with halts_handled [OF assms(1)] show ?thesis by (simp add: handled_def fst_snd_bind)
next
  case (Inr x)
  with assms(1) have "list_all (\<lambda>c. fl c = None) (calls (snd m))" by (simp add: halts_def)
  with Inr assms(2) [OF Inr] show ?thesis
    by (simp add: handled_def fst_snd_bind failures_handled_append_unfailed)
qed

lemma handled_bind:
  assumes "handled fl m" "\<And>x. fst m = Inr x \<Longrightarrow> handled fl (f x)"
    and "\<And>x c. fst m = Inr x \<Longrightarrow> c \<in> set (calls (snd m)) \<Longrightarrow> fl c \<noteq> None \<Longrightarrow>
           recovered c \<and> operation c \<notin> set (map operation (calls (snd (f x))))"
  shows "handled fl (bind m f)"
proof (cases "fst m")
  case (Inl e)
  with assms(1) show ?thesis by (simp add: handled_def fst_snd_bind)
next
  case (Inr x)
  have "failures_handled fl (calls (snd m) @ calls (snd (f x)))"
    using assms(1) assms(2) [OF Inr] assms(3) [OF Inr]
    unfolding handled_def by (intro failures_handled_append) blast+
  with Inr show ?thesis by (simp add: handled_def fst_snd_bind)
qed

lemma createReleaseTag_handled:
  "handled (failure deps client) (createReleaseTag client refInfo annotation)"
  "fst (createReleaseTag client refInfo annotation) = Inr x \<Longrightarrow>
   c \<in> set (calls (snd (createReleaseTag client refInfo annotation))) \<Longrightarrow>
   failure deps client c \<noteq> None \<Longrightarrow> operation c = ''git.createRef''"
  using createReleaseTag_outcome [of client refInfo annotation]
  by (auto simp: handled_def reattempted_def updateRef_request_def createRef_request_def
      split: sum.splits)

lemma deletePreviousGitHubRelease_handled:
  "handled fl (deletePreviousGitHubRelease client releaseInfo)"
  using deletePreviousGitHubRelease_outcome [of client releaseInfo]
  by (auto simp: handled_def reattempted_def split: sum.splits)

lemma getCommitsSinceRelease_handled:
  "handled fl (getCommitsSinceRelease deps client tagInfo currentSha)"
  using getCommitsSinceRelease_outcome [of deps client tagInfo currentSha]
  by (auto simp: handled_def reattempted_def)


lemma all_calls_createReleaseTag [all_calls_intros]:
  "(\<And>p. P (CreateTag p)) \<Longrightarrow> (\<And>p. P (CreateRef p)) \<Longrightarrow> (\<And>p. P (UpdateRef p)) \<Longrightarrow>
   all_calls P (createReleaseTag client refInfo annotation)"
  unfolding createReleaseTag_def Let_def client_git_createTag_def client_git_createRef_def
    client_git_updateRef_def
  by (intro all_calls_intros) simp_all

lemma all_calls_deletePreviousGitHubRelease [all_calls_intros]:
  "(\<And>p. P (GetReleaseByTag p)) \<Longrightarrow> (\<And>p. P (DeleteRelease p)) \<Longrightarrow>
   all_calls P (deletePreviousGitHubRelease client releaseInfo)"
  unfolding deletePreviousGitHubRelease_def client_repos_getReleaseByTag_def
    client_repos_deleteRelease_def
  by (intro all_calls_intros) simp_all

lemma all_calls_generateNewGitHubRelease [all_calls_intros]:
  "(\<And>p. P (CreateRelease p)) \<Longrightarrow> all_calls P (generateNewGitHubRelease client releaseInfo)"
  unfolding generateNewGitHubRelease_def client_repos_createRelease_def
  by (intro all_calls_intros) simp_all

lemma handled_bind_lift [handled_intros]:
  "(\<And>x. handled fl (f x)) \<Longrightarrow> handled fl (bind (lift r) f)"
  by (rule handled_bind_halts) (rule halts_lift)

lemma handled_seq_emit [handled_intros]:
  assumes "calls [ev] = []" "handled fl n"
  shows "handled fl (seq (emit ev) n)"
  unfolding seq_def by (rule handled_bind_halts) (simp_all add: halts_emit assms)

lemma handled_if [handled_intros]:
  "(b \<Longrightarrow> handled fl m) \<Longrightarrow> (\<not> b \<Longrightarrow> handled fl n) \<Longrightarrow> handled fl (if b then m else n)"
  by simp

lemma handled_throw [handled_intros]: "handled fl (throw e)"
  by (simp add: handled_def throw_def)

lemma handled_bind_if [handled_intros]:
  "halts fl m \<Longrightarrow> halts fl n \<Longrightarrow> (\<And>x. handled fl (f x)) \<Longrightarrow>
   handled fl (bind (if b then m else n) f)"
  by (rule handled_bind_halts) simp_all

lemma handled_bind_getAndValidateArgs:
  "(\<And>args. fst (getAndValidateArgs deps) = Inr args \<Longrightarrow> handled fl (f args)) \<Longrightarrow>
   handled fl (bind (getAndValidateArgs deps) f)"
  by (rule handled_bind_halts) (rule halts_getAndValidateArgs)

lemma handled_bind_getChangelog [handled_intros]:
  "(\<And>x. handled (failure deps client) (f x)) \<Longrightarrow>
   handled (failure deps client) (bind (getChangelog deps client ow re commits) f)"
  by (rule handled_bind_halts) (rule halts_getChangelog)

lemma handled_bind_getPaths [handled_intros]:
  "(\<And>x. handled fl (f x)) \<Longrightarrow> handled fl (bind (getPaths g fs) f)"
  by (rule handled_bind_halts) (rule halts_getPaths)

lemma handled_bind_getChecksums [handled_intros]:
  "(\<And>x. handled fl (f x)) \<Longrightarrow> handled fl (bind (getChecksums r s b ps) f)"
  by (rule handled_bind_halts) (rule halts_getChecksums)

lemma handled_bind_getCommitsSinceRelease [handled_intros]:
  assumes "\<And>x. handled fl (f x)"
    and "\<And>x. all_calls (\<lambda>c. operation c \<notin> {''git.getRef'', ''repos.compareCommits''}) (f x)"
  shows "handled fl (bind (getCommitsSinceRelease deps client tagInfo currentSha) f)"
proof (rule handled_bind)
  show "handled fl (getCommitsSinceRelease deps client tagInfo currentSha)"
    by (rule getCommitsSinceRelease_handled)
next
  fix x show "handled fl (f x)" by (rule assms(1))
next
  fix x c
  assume c: "c \<in> set (calls (snd (getCommitsSinceRelease deps client tagInfo currentSha)))"
  have "\<forall>c'\<in>set (calls (snd (f x))). operation c' \<notin> {''git.getRef'', ''repos.compareCommits''}"
    using assms(2) [of x] by (simp add: all_calls_def list_all_iff)
  with c getCommitsSinceRelease_outcome [of deps client tagInfo currentSha]
  show "recovered c \<and> operation c \<notin> set (map operation (calls (snd (f x))))"
    by auto
qed

lemma handled_publish [handled_intros]:
  assumes silent: "\<And>url. calls (snd (rest url)) = []"
  shows "handled (failure deps client)
           (seq (if b then seq (createReleaseTag client refInfo annotation)
                          (deletePreviousGitHubRelease client releaseInfo)
                 else ret ())
              (bind (generateNewGitHubRelease client newRelease) (\<lambda>url.
                 seq (request (UploadReleaseArtifacts url paths)
                        (uploadReleaseArtifacts deps client url paths))
                   (rest url))))"
proof -
  let ?fl = "failure deps client"
  let ?tag = "createReleaseTag client refInfo annotation"
  let ?del = "deletePreviousGitHubRelease client releaseInfo"
  let ?gen = "bind (generateNewGitHubRelease client newRelease) (\<lambda>url.
                 seq (request (UploadReleaseArtifacts url paths)
                        (uploadReleaseArtifacts deps client url paths))
                   (rest url))"
  have gen: "halts ?fl ?gen"
    by (intro halts_intros halts_silent silent; simp)
  have gen_ops: "all_calls (\<lambda>c. operation c \<notin> {''git.createRef'', ''repos.getReleaseByTag'',
                     ''repos.deleteRelease''}) ?gen"
    by (intro all_calls_intros; simp add: all_calls_def silent)
  have del_ops: "all_calls (\<lambda>c. operation c \<notin> {''git.createRef''}) ?del"
    by (intro all_calls_intros; simp)
  have td: "handled ?fl (seq ?tag ?del)"
    unfolding seq_def
  proof (rule handled_bind)
    fix x c
    assume "fst ?tag = Inr x" "c \<in> set (calls (snd ?tag))" "?fl c \<noteq> None"
    then have "operation c = ''git.createRef''" by (rule createReleaseTag_handled(2))
    moreover have "\<forall>c'\<in>set (calls (snd ?del)). operation c' \<notin> {''git.createRef''}"
      using del_ops by (simp add: all_calls_def list_all_iff)
    ultimately show "recovered c \<and> operation c \<notin> set (map operation (calls (snd ?del)))"
      by (cases c) auto
  qed (rule createReleaseTag_handled deletePreviousGitHubRelease_handled)+
  have td_gen: "handled ?fl (seq (seq ?tag ?del) ?gen)"
    unfolding seq_def [of "seq ?tag ?del"]
  proof (rule handled_bind)
    fix x c
    assume ok: "fst (seq ?tag ?del) = Inr x" and c: "c \<in> set (calls (snd (seq ?tag ?del)))"
      and f: "?fl c \<noteq> None"
    from ok obtain y where y: "fst ?tag = Inr y"
      by (auto simp: fst_snd_seq split: sum.splits)
    with c have "c \<in> set (calls (snd ?tag)) \<or> c \<in> set (calls (snd ?del))"
      by (auto simp: fst_snd_seq)
    then have "operation c \<in> {''git.createRef'', ''repos.getReleaseByTag'', ''repos.deleteRelease''}"
    proof
      assume "c \<in> set (calls (snd ?tag))"
      from createReleaseTag_handled(2) [OF y this f] show ?thesis by simp
    next
      assume "c \<in> set (calls (snd ?del))"
      with deletePreviousGitHubRelease_outcome [of client releaseInfo] show ?thesis
        by (auto split: sum.splits)
    qed
    moreover have "\<forall>c'\<in>set (calls (snd ?gen)). operation c' \<notin> {''git.createRef'',
        ''repos.getReleaseByTag'', ''repos.deleteRelease''}"
      using gen_ops by (simp add: all_calls_def list_all_iff)
    ultimately show "recovered c \<and> operation c \<notin> set (map operation (calls (snd ?gen)))"
      by (cases c) auto
  qed (rule td halts_handled [OF gen])+
  show ?thesis
  proof (cases b)
    case True
    with td_gen show ?thesis by simp
  next
    case False
    with halts_handled [OF gen] show ?thesis by (simp add: seq_def)
  qed
qed

lemma handled_catch_report:
  assumes "handled fl m"
  shows "handled fl (catch m (\<lambda>error. seq (emit (SetFailed (message error))) (throw error)))"
  using assms by (cases "fst m") (simp_all add: handled_def fst_snd_catch throw_def)

lemma main_handled:
  assumes "getInput deps ''repo_token'' True = Inr token" "new_GitHub deps token = Inr client"
  shows "handled (failure deps client) (main deps)"
  unfolding main_def Let_def
  apply (rule handled_catch_report)
  apply (rule handled_bind_getAndValidateArgs)
  apply (rule handled_bind_halts, rule halts_lift)
  apply (rule handled_bind_halts, rule halts_lift)
  subgoal premises prems for args context' client'
  proof -
    have "repoToken args = token"
      using getAndValidateArgs_token [OF prems(1)] assms(1) by simp
    with prems(3) assms(2) have eq: "client' = client" by (simp add: lift_def)
    show ?thesis
      unfolding eq
      apply (intro handled_intros)
      apply ((rule halts_intros)+ | (intro all_calls_intros; simp) | simp add: fst_snd_emit)+
      done
  qed
  done

section \<open>The requests of the release publisher\<close>

lemma publisher_requests_append [simp]:
  "publisher_requests (xs @ ys) = publisher_requests xs @ publisher_requests ys"
  by (simp add: publisher_requests_def)

lemma publisher_requests_silent:
  "all_calls (\<lambda>c. method_of c = M_other) m \<Longrightarrow> publisher_requests (snd m) = []"
  by (simp add: all_calls_def publisher_requests_def list_all_iff filter_empty_conv)

lemma published_cong:
  "fst m = fst n \<Longrightarrow> publisher_requests (snd m) = publisher_requests (snd n) \<Longrightarrow>
   published deps t m = published deps t n"
  by (simp add: published_def)

lemma published_failed:
  "isl (fst m) \<Longrightarrow> publisher_requests (snd m) = [] \<Longrightarrow> published deps t m"
  by (simp add: published_def)

lemma published_throw [published_intros]: "published deps t (throw e)"
  by (rule published_failed) (simp_all add: throw_def publisher_requests_def)

lemma published_bind [published_intros]:
  assumes "all_calls (\<lambda>c. method_of c = M_other) m"
    and "\<And>x. fst m = Inr x \<Longrightarrow> published deps t (f x)"
  shows "published deps t (bind m f)"
proof (cases "fst m")
  case (Inl e)
  then show ?thesis
    using publisher_requests_silent [OF assms(1)]
    by (intro published_failed) (simp_all add: fst_snd_bind)
next
  case (Inr x)
  have "published deps t (bind m f) = published deps t (f x)"
    using Inr publisher_requests_silent [OF assms(1)]
    by (intro published_cong) (simp_all add: fst_snd_bind)
  with assms(2) [OF Inr] show ?thesis by simp
qed

lemma published_seq_emit [published_intros]:
  assumes "calls [ev] = []" "published deps t n"
  shows "published deps t (seq (emit ev) n)"
  unfolding seq_def
  by (rule published_bind) (simp_all add: assms all_calls_emit)

lemma published_if [published_intros]:
  "(b \<Longrightarrow> published deps t m) \<Longrightarrow> (\<not> b \<Longrightarrow> published deps t n) \<Longrightarrow>
   published deps t (if b then m else n)"
  by simp

lemma published_catch_report:
  assumes "published deps t m"
  shows "published deps t (catch m (\<lambda>error. seq (emit (SetFailed (message error))) (throw error)))"
proof (cases "fst m")
  case (Inl e)
  have "published deps t (catch m (\<lambda>error. seq (emit (SetFailed (message error))) (throw error)))
        = published deps t m"
    using Inl by (intro published_cong) (simp_all add: fst_snd_catch throw_def publisher_requests_def)
  with assms show ?thesis by simp
next
  case (Inr x)
  have "published deps t (catch m (\<lambda>error. seq (emit (SetFailed (message error))) (throw error)))
        = published deps t m"
    using Inr by (intro published_cong) (simp_all add: fst_snd_catch)
  with assms show ?thesis by simp
qed

lemma publisher_requests_all:
  "all_calls (\<lambda>c. method_of c \<noteq> M_other) m \<Longrightarrow> publisher_requests (snd m) = calls (snd m)"
  by (simp add: all_calls_def publisher_requests_def list_all_iff)

lemma getAndValidateArgs_annotation:
  assumes "fst (getAndValidateArgs deps) = Inr args"
  shows "getInput deps ''tag_annotation'' False = Inr (tagAnnotation args)"
  using assms unfolding getAndValidateArgs_def Let_def
  by (auto simp: fst_snd_bind lift_def ret_def split: sum.splits if_splits)

lemma published_publish:
  assumes tok: "getInput deps ''repo_token'' True = Inr token"
    and cl: "new_GitHub deps token = Inr client"
    and cx: "new_Context deps = Inr ctx"
    and rp: "context_repo ctx = Inr rp"
    and an: "getInput deps ''tag_annotation'' False = Inr ann"
    and silent: "\<And>url. all_calls (\<lambda>c. method_of c = M_other) (f url)"
    and nr: "owner newRelease = owner rp" "repo newRelease = repo rp" "tag_name newRelease = t"
  shows "published deps t
           (seq (seq (createReleaseTag client
                        \<lparr>owner = owner rp, repo = repo rp, ref = ''refs/tags/'' @ t,
                         sha = context_sha ctx\<rparr> ann)
                   (deletePreviousGitHubRelease client
                      \<lparr>owner = owner rp, repo = repo rp, tag = t\<rparr>))
              (bind (generateNewGitHubRelease client newRelease) f))"
proof -
  let ?refInfo = "\<lparr>owner = owner rp, repo = repo rp, ref = ''refs/tags/'' @ t,
                   sha = context_sha ctx\<rparr>"
  let ?releaseInfo = "\<lparr>owner = owner rp, repo = repo rp, tag = t\<rparr>"
  let ?tag = "createReleaseTag client ?refInfo ann"
  let ?del = "deletePreviousGitHubRelease client ?releaseInfo"
  let ?gen = "bind (generateNewGitHubRelease client newRelease) f"
  let ?m = "seq (seq ?tag ?del) ?gen"
  have tag: "publisher_requests (snd ?tag) = calls (snd ?tag)"
    by (intro publisher_requests_all all_calls_intros; simp)
  have del: "publisher_requests (snd ?del) =
      (case repos_getReleaseByTag client ?releaseInfo of
         Inl _ \<Rightarrow> [GetReleaseByTag ?releaseInfo]
       | Inr found \<Rightarrow>
           [GetReleaseByTag ?releaseInfo,
            DeleteRelease \<lparr>owner = owner rp, repo = repo rp, release_id = found\<rparr>])"
  proof -
    have "publisher_requests (snd ?del) = calls (snd ?del)"
      by (intro publisher_requests_all all_calls_intros; simp)
    with deletePreviousGitHubRelease_outcome [of client ?releaseInfo] show ?thesis
      by (cases "repos_getReleaseByTag client ?releaseInfo") simp_all
  qed
  have del_ok: "fst ?del = Inr ()"
    using deletePreviousGitHubRelease_outcome [of client ?releaseInfo] by simp
  have gen: "publisher_requests (snd ?gen) = [CreateRelease newRelease]"
  proof -
    have "publisher_requests (snd (generateNewGitHubRelease client newRelease)) =
        [CreateRelease newRelease]"
      using generateNewGitHubRelease_outcome [of client newRelease]
      by (simp add: publisher_requests_def)
    then show ?thesis
      by (cases "fst (generateNewGitHubRelease client newRelease)")
         (simp_all add: fst_snd_bind publisher_requests_silent [OF silent])
  qed
  show ?thesis
  proof (cases "fst ?tag")
    case (Inl e)
    with tag have "fst ?m = Inl e" "publisher_requests (snd ?m) = calls (snd ?tag)"
      by (simp_all add: fst_snd_seq)
    with Inl tok cl cx rp an show ?thesis
      unfolding published_def Let_def by blast
  next
    case (Inr u)
    then have ok: "fst ?tag = Inr ()" by simp
    from Inr have "publisher_requests (snd ?m) =
        calls (snd ?tag) @
        (case repos_getReleaseByTag client ?releaseInfo of
           Inl _ \<Rightarrow> [GetReleaseByTag ?releaseInfo]
         | Inr found \<Rightarrow>
             [GetReleaseByTag ?releaseInfo,
              DeleteRelease \<lparr>owner = owner rp, repo = repo rp, release_id = found\<rparr>]) @
        [CreateRelease newRelease]"
      using tag del del_ok gen by (simp add: fst_snd_seq)
    with ok nr tok cl cx rp an show ?thesis
      unfolding published_def Let_def by blast
  qed
qed

lemma lift_Inr: "fst (lift r) = Inr x \<Longrightarrow> r = Inr x"
  by (simp add: lift_def)

lemma main_published:
  assumes "getInput deps ''automatic_release_tag'' False = Inr t" "t \<noteq> []"
  shows "published deps t (main deps)"
  unfolding main_def Let_def
  apply (rule published_catch_report)
  apply (intro published_intros)
  apply ((intro all_calls_intros; simp) | (simp only: calls_simps))+
  subgoal premises prems for args ctx client u releaseTag rp prev commits changelog' changelog paths sums
  proof -
    note tag = getAndValidateArgs_tag [OF prems(1)]
    with assms have t: "automaticReleaseTag args = t" by simp
    with assms(2) have tr: "truthy (automaticReleaseTag args)" by (simp add: truthy_def)
    with prems(5) t have rt: "releaseTag = t" by (simp add: ret_def)
    have ann: "(if truthy (tagAnnotation args) then tagAnnotation args else []) = tagAnnotation args"
      by (simp add: truthy_def)
    have silent: "all_calls (\<lambda>c. method_of c = M_other)
        (seq (request (UploadReleaseArtifacts url paths) (uploadReleaseArtifacts deps client url paths))
           (seq (emit (LogDebug (''Exporting environment variable AUTOMATIC_RELEASES_TAG with value '' @ t)))
           (seq (emit (ExportVariable ''AUTOMATIC_RELEASES_TAG'' t))
           (seq (emit (SetOutput ''automatic_releases_tag'' t))
           (emit (SetOutput ''upload_url'' url))))))" for url
      by (intro all_calls_intros; simp)
    note leaf = published_publish [OF getAndValidateArgs_token [OF prems(1)] lift_Inr [OF prems(3)]
        lift_Inr [OF prems(2)] lift_Inr [OF prems(7)] getAndValidateArgs_annotation [OF prems(1)],
        where t = t and f = "\<lambda>url. seq (request (UploadReleaseArtifacts url paths) (uploadReleaseArtifacts deps client url paths))
           (seq (emit (LogDebug (''Exporting environment variable AUTOMATIC_RELEASES_TAG with value '' @ t)))
           (seq (emit (ExportVariable ''AUTOMATIC_RELEASES_TAG'' t))
           (seq (emit (SetOutput ''automatic_releases_tag'' t))
           (emit (SetOutput ''upload_url'' url)))))"
        and newRelease = "\<lparr>owner = owner rp, repo = repo rp, tag_name = t,
                  release_name = (if truthy (releaseTitle args) then releaseTitle args else t),
                  draft = draftRelease args, prerelease = preRelease args,
                  body = changelog @ [CHR 0x0A, CHR 0x0A] @ sums\<rparr>", OF silent]
    show ?thesis
      unfolding rt t ann using tr t leaf by simp
  qed
  done



text \<open>
  C3, as stated, fails: the \<open>catch\<close> block of \<open>deletePreviousGitHubRelease\<close> catches
  whatever the release lookup or the deletion throws and does not look at the error. Here the
  lookup is answered with a server error (status 500), the lookup was made and raised that
  error, and the run returns normally without \<open>setFailed\<close>.
\<close>

theorem delete_phase_server_error_not_fatal:
  "repos_getReleaseByTag outage_client \<lparr>owner = ''octo'', repo = ''demo'', tag = ''v1.1.0''\<rparr> =
     Inl (RequestError 500 ''Internal Server Error'') \<and>
   GetReleaseByTag \<lparr>owner = ''octo'', repo = ''demo'', tag = ''v1.1.0''\<rparr>
     \<in> set (calls (snd (main (example_deps outage_client)))) \<and>
   Thrown (RequestError 500 ''Internal Server Error'') \<in> set (snd (main (example_deps outage_client))) \<and>
   fst (main (example_deps outage_client)) = Inr () \<and>
   filter is_SetFailed (snd (main (example_deps outage_client))) = []"
proof -
  have a: "repos_getReleaseByTag outage_client \<lparr>owner = ''octo'', repo = ''demo'', tag = ''v1.1.0''\<rparr> =
     Inl (RequestError 500 ''Internal Server Error'')"
    by (simp add: outage_client_def)
  have b: "GetReleaseByTag \<lparr>owner = ''octo'', repo = ''demo'', tag = ''v1.1.0''\<rparr>
     \<in> set (calls (snd (main (example_deps outage_client))))"
    by code_simp
  have t: "Thrown (RequestError 500 ''Internal Server Error'')
     \<in> set (snd (main (example_deps outage_client)))"
    by code_simp
  have c: "fst (main (example_deps outage_client)) = Inr ()"
    by code_simp
  have d: "filter is_SetFailed (snd (main (example_deps outage_client))) = []"
    by code_simp
  from a b t c d show ?thesis by blast
qed

text \<open>
  C3, amended: (1) every exception raised in a run of \<open>main\<close>, whatever raises it, is
  either caught on the spot by one of the four \<open>catch\<close> blocks inside the functions, or it
  is the error the run ends with, and then \<open>main\<close> reports it with \<open>setFailed\<close> and throws
  it again; (2) in particular, with \<open>client\<close> the client constructed for the token, every
  call made to the hosting platform and answered with an error makes that error the outcome
  of \<open>main\<close>, unless it is the ref creation, the release lookup, the release deletion, the
  ref lookup or the commit comparison; (3) the delete-previous-release step returns normally
  whatever the lookup and the deletion answer; and (4) in a run with an explicit release tag,
  once the release lookup was requested the creation of the new release is requested too.
\<close>

theorem main_error_propagation:
  "(case fst (main deps) of
      Inr _ \<Rightarrow> settled (snd (main deps))
    | Inl e \<Rightarrow>
        \<exists>tr. settled tr \<and> snd (main deps) = tr @ [Thrown e, SetFailed (message e), Thrown e]) \<and>
   (\<forall>token client.
      getInput deps ''repo_token'' True = Inr token \<and> new_GitHub deps token = Inr client \<longrightarrow>
      (\<forall>c\<in>set (calls (snd (main deps))). \<forall>e.
         failure deps client c = Some e \<and> \<not> recovered c \<longrightarrow> fst (main deps) = Inl e)) \<and>
   (\<forall>client releaseInfo. fst (deletePreviousGitHubRelease client releaseInfo) = Inr ()) \<and>
   (\<forall>t. getInput deps ''automatic_release_tag'' False = Inr t \<and> t \<noteq> [] \<and>
         M_getReleaseByTag \<in> set (publisher_calls (snd (main deps))) \<longrightarrow>
         M_createRelease \<in> set (publisher_calls (snd (main deps))))"
proof (intro conjI allI impI)
  show "case fst (main deps) of
          Inr _ \<Rightarrow> settled (snd (main deps))
        | Inl e \<Rightarrow>
            \<exists>tr. settled tr \<and> snd (main deps) = tr @ [Thrown e, SetFailed (message e), Thrown e]"
    by (rule main_errors_handled)
next
  fix token client
  assume "getInput deps ''repo_token'' True = Inr token \<and> new_GitHub deps token = Inr client"
  then have "propagates (failure deps client) (main deps)"
    by (blast intro: main_propagates)
  then show "\<forall>c\<in>set (calls (snd (main deps))). \<forall>e.
          failure deps client c = Some e \<and> \<not> recovered c \<longrightarrow> fst (main deps) = Inl e"
    unfolding propagates_def .
next
  fix client releaseInfo
  show "fst (deletePreviousGitHubRelease client releaseInfo) = Inr ()"
    by (rule deletePreviousGitHubRelease_methods)
next
  fix t
  assume t: "getInput deps ''automatic_release_tag'' False = Inr t \<and> t \<noteq> [] \<and>
             M_getReleaseByTag \<in> set (publisher_calls (snd (main deps)))"
  then have "publisher_run (main deps)" by (blast intro: main_publisher_run)
  with t show "M_createRelease \<in> set (publisher_calls (snd (main deps)))"
    by (auto simp: publisher_run_def publisher_runs_def publisher_sequences_def)
qed

theorem main_error_propagation_witness:
  "getInput (example_deps release_down_client) ''repo_token'' True = Inr ''t0ken'' \<and>
   new_GitHub (example_deps release_down_client) ''t0ken'' = Inr release_down_client \<and>
   failure (example_deps release_down_client) release_down_client
     (last (calls (snd (main (example_deps release_down_client))))) =
     Some (RequestError 503 ''Service Unavailable'') \<and>
   method_of (last (calls (snd (main (example_deps release_down_client))))) = M_createRelease \<and>
   fst (main (example_deps release_down_client)) = Inl (RequestError 503 ''Service Unavailable'') \<and>
   (\<exists>tr. settled tr \<and>
      snd (main (example_deps release_down_client)) =
        tr @ [Thrown (RequestError 503 ''Service Unavailable''), SetFailed ''Service Unavailable'',
              Thrown (RequestError 503 ''Service Unavailable'')])"
proof -
  let ?deps = "example_deps release_down_client"
  let ?c = "last (calls (snd (main ?deps)))"
  have h1: "getInput ?deps ''repo_token'' True = Inr ''t0ken''" by code_simp
  have h2: "new_GitHub ?deps ''t0ken'' = Inr release_down_client"
    by (simp add: example_deps_def)
  note inst = main_error_propagation [of ?deps]
  have ne: "calls (snd (main ?deps)) \<noteq> []" by code_simp
  then have mem: "?c \<in> set (calls (snd (main ?deps)))" by (rule last_in_set)
  have f: "failure ?deps release_down_client ?c = Some (RequestError 503 ''Service Unavailable'')"
    by code_simp
  have m: "method_of ?c = M_createRelease" by code_simp
  have r: "\<not> recovered ?c" by code_simp
  from inst h1 h2 mem f r
  have res: "fst (main ?deps) = Inl (RequestError 503 ''Service Unavailable'')"
    by blast
  from inst have "case fst (main ?deps) of
      Inr _ \<Rightarrow> settled (snd (main ?deps))
    | Inl e \<Rightarrow>
        \<exists>tr. settled tr \<and> snd (main ?deps) = tr @ [Thrown e, SetFailed (message e), Thrown e]"
    by blast
  with res have reported: "\<exists>tr. settled tr \<and>
      snd (main ?deps) =
        tr @ [Thrown (RequestError 503 ''Service Unavailable''), SetFailed ''Service Unavailable'',
              Thrown (RequestError 503 ''Service Unavailable'')]"
    by simp
  from h1 h2 f m res reported show ?thesis by blast
qed

end
